theory Spec2Isabelle
  imports Main "HOL-Library.Word"
begin

unbundle bit_operations_syntax

section \<open>Machine types and faults\<close>

text \<open>
  The tree of \<^verbatim>\<open>radix.h\<close> lives in shared memory and is reached through raw
  machine words. \<^verbatim>\<open>uintptr_t\<close> is a 64-bit word, the descent counter
  \<^verbatim>\<open>level\<close> is a \<^verbatim>\<open>uint32_t\<close>, and the key type \<^verbatim>\<open>K\<close> of the template is
  \<open>'k word\<close>, whose length is \<^verbatim>\<open>8 * sizeof(K)\<close>. \<^verbatim>\<open>K\<close> is an unsigned integer type:
  the tree is specified for unsigned keys of a fixed width only, and a word is read as
  unsigned throughout.

  Everything that stops the C++ program instead of returning is a \<open>fault\<close>: a failed
  \<^verbatim>\<open>assert\<close>, the dereference of a pointer that points to no live object
  (\<^verbatim>\<open>nullptr\<close> included), a shift by at least the width of the promoted left
  operand (undefined behaviour), and \<^verbatim>\<open>std::bad_alloc\<close> thrown by \<^verbatim>\<open>MakeUnique\<close>.
\<close>

type_synonym uintptr_t = "64 word"
type_synonym uint32_t = "32 word"

datatype fault = AssertionFailure | InvalidPointer | UndefinedShift | BadAlloc

section \<open>RadixElement: the tagged word\<close>

text \<open>
  \<^verbatim>\<open>RadixElement\<close> is a union of \<^verbatim>\<open>RadixNode *node\<close>, \<^verbatim>\<open>T *leaf\<close> and
  \<^verbatim>\<open>uintptr_t raw\<close>: one word, read through \<^verbatim>\<open>raw\<close>. The three constructors are
  \<open>RadixElement_default\<close> (no argument), \<open>RadixElement_node\<close> and \<open>RadixElement_leaf\<close>.
\<close>

type_synonym RadixElement = uintptr_t

definition DISCRIMINANT :: uintptr_t where
  "DISCRIMINANT = 0x01"

definition getDiscriminent :: "RadixElement \<Rightarrow> bool" where
  "getDiscriminent raw = (raw AND DISCRIMINANT \<noteq> 0)"

definition RadixElement_default :: RadixElement where
  "RadixElement_default = DISCRIMINANT"

definition RadixElement_node :: "uintptr_t \<Rightarrow> RadixElement" where
  "RadixElement_node nodeIn = nodeIn"

definition RadixElement_leaf :: "uintptr_t \<Rightarrow> RadixElement" where
  "RadixElement_leaf leafIn = leafIn OR DISCRIMINANT"

definition isNode :: "RadixElement \<Rightarrow> bool" where
  "isNode raw = (\<not> getDiscriminent raw)"

definition getNode :: "RadixElement \<Rightarrow> fault + uintptr_t" where
  "getNode raw = (if isNode raw then Inr raw else Inl AssertionFailure)"

definition isLeaf :: "RadixElement \<Rightarrow> bool" where
  "isLeaf raw = getDiscriminent raw"

definition getLeaf :: "RadixElement \<Rightarrow> fault + uintptr_t" where
  "getLeaf raw = (if isLeaf raw then Inr (raw AND NOT DISCRIMINANT) else Inl AssertionFailure)"

section \<open>Constants of the tree and RadixNode\<close>

definition BITS :: nat where
  "BITS = 4"

definition MASK :: int where
  "MASK = push_bit BITS 1 - 1"

definition CHILD_PER_LEVEL :: nat where
  "CHILD_PER_LEVEL = push_bit BITS 1"

definition KEY_BITS :: "'k::len itself \<Rightarrow> nat" where
  "KEY_BITS t = LENGTH('k)"

definition TOP_LEVEL :: "'k::len itself \<Rightarrow> uint32_t" where
  "TOP_LEVEL t = of_nat ((KEY_BITS t - 1) div BITS)"

text \<open>
  The index expression \<^verbatim>\<open>(key >> (level * BITS)) & MASK\<close> of \<^verbatim>\<open>RadixNode::get\<close>.
  The product is computed in \<^verbatim>\<open>uint32_t\<close> and wraps around. The key is promoted before
  the shift (to \<^verbatim>\<open>int\<close>, 32 bits, when \<^verbatim>\<open>K\<close> is narrower), so the shift is undefined
  from \<open>max 32 LENGTH('k)\<close> on. The key is unsigned, so the promotion extends it with
  zeros and the shift is the logical one. (For a signed \<^verbatim>\<open>K\<close> narrower than \<^verbatim>\<open>int\<close>
  the promotion would extend the sign; the two agree on every shift below the width of the
  key, which is all a tree level between 0 and \<^verbatim>\<open>TOP_LEVEL\<close> ever asks for.) The result
  always lies in \<open>0..15\<close>.
\<close>

definition child_index :: "uint32_t \<Rightarrow> 'k::len word \<Rightarrow> fault + nat" where
  "child_index level key =
     (let sh = unat (level * of_nat BITS) in
      if max 32 LENGTH('k) \<le> sh then Inl UndefinedShift
      else Inr (unat (drop_bit sh key AND of_int MASK)))"

text \<open>
  A \<^verbatim>\<open>RadixNode\<close> is its array \<^verbatim>\<open>childs\<close> of \<^verbatim>\<open>CHILD_PER_LEVEL\<close> elements. The
  constructor value-initialises the array, which runs the default constructor of
  \<^verbatim>\<open>RadixElement\<close> on every element, and then stores \<open>x\<close> at the index of the key.
\<close>

type_synonym RadixNode = "RadixElement list"

definition RadixNode_new :: "uint32_t \<Rightarrow> 'k::len word \<Rightarrow> RadixElement \<Rightarrow> fault + RadixNode" where
  "RadixNode_new level key x =
     (case child_index level key of
        Inl f \<Rightarrow> Inl f
      | Inr i \<Rightarrow> Inr ((replicate CHILD_PER_LEVEL RadixElement_default)[i := x]))"

section \<open>Shared memory\<close>

text \<open>
  A pointer to an atomic slot (\<^verbatim>\<open>std::atomic<RadixElement> *\<close>) is either \<^verbatim>\<open>&root\<close>
  or \<^verbatim>\<open>&n->childs[i]\<close> for a node at address \<open>n\<close>.

  The memory holds the root slot, the live \<^verbatim>\<open>RadixNode\<close> objects by address, the
  objects of type \<^verbatim>\<open>T\<close> by address with the value of their \<^verbatim>\<open>getId()\<close>, and the
  addresses the allocator will hand out next: \<^verbatim>\<open>new\<close> takes the head of
  \<open>free_nodes\<close> (and throws when there is none), \<^verbatim>\<open>delete\<close> gives the address back.
\<close>

datatype slot_ptr = Root | Child uintptr_t nat

record (overloaded) 'k tree_mem =
  root :: RadixElement
  nodes :: "uintptr_t \<Rightarrow> RadixNode option"
  objs :: "uintptr_t \<Rightarrow> 'k word option"
  free_nodes :: "uintptr_t list"

definition RadixNode_get :: "uintptr_t \<Rightarrow> uint32_t \<Rightarrow> 'k::len word \<Rightarrow> fault + slot_ptr" where
  "RadixNode_get n level key =
     (case child_index level key of Inl f \<Rightarrow> Inl f | Inr i \<Rightarrow> Inr (Child n i))"

definition load :: "'k tree_mem \<Rightarrow> slot_ptr \<Rightarrow> fault + RadixElement" where
  "load m p =
     (case p of
        Root \<Rightarrow> Inr (root m)
      | Child a i \<Rightarrow>
          (case nodes m a of
             None \<Rightarrow> Inl InvalidPointer
           | Some cs \<Rightarrow> if i < length cs then Inr (cs ! i) else Inl InvalidPointer))"

definition store :: "'k tree_mem \<Rightarrow> slot_ptr \<Rightarrow> RadixElement \<Rightarrow> 'k tree_mem" where
  "store m p x =
     (case p of
        Root \<Rightarrow> m\<lparr>root := x\<rparr>
      | Child a i \<Rightarrow>
          (case nodes m a of
             None \<Rightarrow> m
           | Some cs \<Rightarrow> m\<lparr>nodes := (nodes m)(a \<mapsto> cs[i := x])\<rparr>))"

text \<open>
  \<^verbatim>\<open>compare_exchange_strong(expected, desired)\<close>: one atomic step. The result is the
  new memory, the success flag and the value \<^verbatim>\<open>expected\<close> holds afterwards.
\<close>

definition compare_exchange_strong ::
  "'k tree_mem \<Rightarrow> slot_ptr \<Rightarrow> RadixElement \<Rightarrow> RadixElement \<Rightarrow> fault + ('k tree_mem \<times> bool \<times> RadixElement)" where
  "compare_exchange_strong m p expected desired =
     (case load m p of
        Inl f \<Rightarrow> Inl f
      | Inr cur \<Rightarrow>
          if cur = expected then Inr (store m p desired, True, expected)
          else Inr (m, False, cur))"

section \<open>insert, one atomic step at a time\<close>

text \<open>
  The local variables of \<^verbatim>\<open>insert(const K &key, T *value)\<close> and a program counter:
  \<^item> \<open>PLoad\<close>: line 101, \<^verbatim>\<open>e = eptr->load()\<close>;
  \<^item> \<open>PWhile\<close>: the test of line 104; on a node the loop body, otherwise the test of
    line 111 and, on an empty slot, the compare-and-swap of line 112;
  \<^item> \<open>PNode\<close>: the label \<^verbatim>\<open>Node\<close>, entered by \<^verbatim>\<open>goto\<close> (lines 106 and 107);
  \<^item> \<open>PLeaf\<close>: lines 123 to 131, the key comparison and \<^verbatim>\<open>MakeUnique\<close>;
  \<^item> \<open>PCas\<close>: lines 132 to 137, the publishing compare-and-swap, and the destructor of
    \<^verbatim>\<open>newChild\<close> at the end of the loop body;
  \<^item> \<open>PRet b\<close>: the call has returned \<open>b\<close>.
\<close>

datatype ins_pc = PLoad | PWhile | PNode | PLeaf | PCas | PRet bool

record (overloaded) 'k ins_thread =
  ikey :: "'k word"
  ivalue :: uintptr_t
  ilevel :: uint32_t
  ieptr :: slot_ptr
  ie :: RadixElement
  inewChild :: uintptr_t
  ipc :: ins_pc

definition descend :: "'k::len tree_mem \<Rightarrow> 'k ins_thread \<Rightarrow> fault + ('k tree_mem \<times> 'k ins_thread)" where
  "descend m t =
     (case getNode (ie t) of
        Inl f \<Rightarrow> Inl f
      | Inr n \<Rightarrow>
          (case RadixNode_get n (ilevel t) (ikey t) of
             Inl f \<Rightarrow> Inl f
           | Inr p \<Rightarrow>
               (case load m p of
                  Inl f \<Rightarrow> Inl f
                | Inr x \<Rightarrow> Inr (m, t\<lparr>ieptr := p, ilevel := ilevel t - 1, ie := x, ipc := PWhile\<rparr>))))"

definition insert_step :: "'k::len tree_mem \<Rightarrow> 'k ins_thread \<Rightarrow> fault + ('k tree_mem \<times> 'k ins_thread)" where
  "insert_step m t =
     (case ipc t of
        PLoad \<Rightarrow>
          (case load m (ieptr t) of
             Inl f \<Rightarrow> Inl f
           | Inr x \<Rightarrow> Inr (m, t\<lparr>ie := x, ipc := PWhile\<rparr>))
      | PWhile \<Rightarrow>
          if isNode (ie t) then descend m t
          else
            (case getLeaf (ie t) of
               Inl f \<Rightarrow> Inl f
             | Inr l \<Rightarrow>
                 if l = 0 then
                   (case compare_exchange_strong m (ieptr t) (ie t) (RadixElement_leaf (ivalue t)) of
                      Inl f \<Rightarrow> Inl f
                    | Inr (m', ok, x) \<Rightarrow>
                        if ok then Inr (m', t\<lparr>ipc := PRet True\<rparr>)
                        else Inr (m', t\<lparr>ie := x, ipc := (if isNode x then PNode else PLeaf)\<rparr>))
                 else Inr (m, t\<lparr>ipc := PLeaf\<rparr>))
      | PNode \<Rightarrow> descend m t
      | PLeaf \<Rightarrow>
          (case getLeaf (ie t) of
             Inl f \<Rightarrow> Inl f
           | Inr l \<Rightarrow>
               (case objs m l of
                  None \<Rightarrow> Inl InvalidPointer
                | Some leafKey \<Rightarrow>
                    if ikey t = leafKey then Inr (m, t\<lparr>ipc := PRet False\<rparr>)
                    else
                      (case free_nodes m of
                         [] \<Rightarrow> Inl BadAlloc
                       | a # rest \<Rightarrow>
                           (case RadixNode_new (ilevel t) leafKey (ie t) of
                              Inl f \<Rightarrow> Inl f
                            | Inr n \<Rightarrow>
                                Inr (m\<lparr>nodes := (nodes m)(a \<mapsto> n), free_nodes := rest\<rparr>,
                                     t\<lparr>inewChild := a, ipc := PCas\<rparr>)))))
      | PCas \<Rightarrow>
          (case compare_exchange_strong m (ieptr t) (ie t) (RadixElement_node (inewChild t)) of
             Inl f \<Rightarrow> Inl f
           | Inr (m', ok, x) \<Rightarrow>
               if ok then Inr (m', t\<lparr>inewChild := 0, ipc := PLoad\<rparr>)
               else
                 Inr (m'\<lparr>nodes := (nodes m')(inewChild t := None),
                          free_nodes := inewChild t # free_nodes m'\<rparr>,
                      t\<lparr>ie := x, inewChild := 0, ipc := PLoad\<rparr>))
      | PRet b \<Rightarrow> Inr (m, t))"

text \<open>
  The public \<^verbatim>\<open>insert(T *value)\<close> reads \<^verbatim>\<open>value->getId()\<close> and enters the private
  overload with \<^verbatim>\<open>level = TOP_LEVEL\<close> and \<^verbatim>\<open>eptr = &root\<close>. The variable \<^verbatim>\<open>e\<close> is
  declared by the first load; until then the record holds the default element.
\<close>

definition insert_begin :: "'k::len tree_mem \<Rightarrow> uintptr_t \<Rightarrow> fault + 'k ins_thread" where
  "insert_begin m v =
     (case objs m v of
        None \<Rightarrow> Inl InvalidPointer
      | Some k \<Rightarrow>
          Inr \<lparr>ikey = k, ivalue = v, ilevel = TOP_LEVEL TYPE('k), ieptr = Root,
               ie = RadixElement_default, inewChild = 0, ipc = PLoad\<rparr>)"

text \<open>
  A call that runs alone: the steps of one thread until it returns. \<open>None\<close> is a call
  that never returns.
\<close>

partial_function (option) insert_run ::
  "'k::len tree_mem \<Rightarrow> 'k ins_thread \<Rightarrow> (fault + ('k tree_mem \<times> bool)) option" where
  "insert_run m t =
     (case ipc t of
        PRet b \<Rightarrow> Some (Inr (m, b))
      | _ \<Rightarrow>
          (case insert_step m t of
             Inl f \<Rightarrow> Some (Inl f)
           | Inr (m', t') \<Rightarrow> insert_run m' t'))"

definition RadixTree_insert :: "'k::len tree_mem \<Rightarrow> uintptr_t \<Rightarrow> (fault + ('k tree_mem \<times> bool)) option" where
  "RadixTree_insert m v =
     (case insert_begin m v of Inl f \<Rightarrow> Some (Inl f) | Inr t \<Rightarrow> insert_run m t)"

section \<open>get, one atomic step at a time\<close>

text \<open>
  \<open>GLoad\<close> is line 72, \<open>GWhile\<close> the loop of lines 75 to 77 followed by lines 79 to 86.
  The result is the pointer returned, \<open>0\<close> for \<^verbatim>\<open>nullptr\<close>.
\<close>

datatype get_pc = GLoad | GWhile | GRet uintptr_t

record (overloaded) 'k get_thread =
  gkey :: "'k word"
  glevel :: uint32_t
  ge :: RadixElement
  gpc :: get_pc

definition get_step :: "'k::len tree_mem \<Rightarrow> 'k get_thread \<Rightarrow> fault + 'k get_thread" where
  "get_step m t =
     (case gpc t of
        GLoad \<Rightarrow> Inr (t\<lparr>ge := root m, gpc := GWhile\<rparr>)
      | GWhile \<Rightarrow>
          if isNode (ge t) then
            (case getNode (ge t) of
               Inl f \<Rightarrow> Inl f
             | Inr n \<Rightarrow>
                 (case RadixNode_get n (glevel t) (gkey t) of
                    Inl f \<Rightarrow> Inl f
                  | Inr p \<Rightarrow>
                      (case load m p of
                         Inl f \<Rightarrow> Inl f
                       | Inr x \<Rightarrow> Inr (t\<lparr>glevel := glevel t - 1, ge := x\<rparr>))))
          else
            (case getLeaf (ge t) of
               Inl f \<Rightarrow> Inl f
             | Inr leaf \<Rightarrow>
                 if leaf = 0 then Inr (t\<lparr>gpc := GRet 0\<rparr>)
                 else
                   (case objs m leaf of
                      None \<Rightarrow> Inl InvalidPointer
                    | Some k \<Rightarrow>
                        if k \<noteq> gkey t then Inr (t\<lparr>gpc := GRet 0\<rparr>)
                        else Inr (t\<lparr>gpc := GRet leaf\<rparr>)))
      | GRet r \<Rightarrow> Inr t)"

definition get_begin :: "'k::len word \<Rightarrow> 'k get_thread" where
  "get_begin k = \<lparr>gkey = k, glevel = TOP_LEVEL TYPE('k), ge = RadixElement_default, gpc = GLoad\<rparr>"

partial_function (option) get_run ::
  "'k::len tree_mem \<Rightarrow> 'k get_thread \<Rightarrow> (fault + uintptr_t) option" where
  "get_run m t =
     (case gpc t of
        GRet r \<Rightarrow> Some (Inr r)
      | _ \<Rightarrow>
          (case get_step m t of
             Inl f \<Rightarrow> Some (Inl f)
           | Inr t' \<Rightarrow> get_run m t'))"

definition RadixTree_get :: "'k::len tree_mem \<Rightarrow> 'k word \<Rightarrow> (fault + uintptr_t) option" where
  "RadixTree_get m k = get_run m (get_begin k)"

text \<open>The tree after \<^verbatim>\<open>RadixTree()\<close>: the root is the default element, no node is live.\<close>

definition RadixTree_new :: "(uintptr_t \<Rightarrow> 'k word option) \<Rightarrow> uintptr_t list \<Rightarrow> 'k tree_mem" where
  "RadixTree_new os fs = \<lparr>root = RadixElement_default, nodes = (\<lambda>a. None), objs = os, free_nodes = fs\<rparr>"

section \<open>Positions in the tree\<close>

text \<open>
  The levels and key chunks as natural numbers, and the invariant of the memory. The
  invariant is stated with a map \<open>pos\<close> that gives every node linked into the tree its depth
  and the key prefix that leads to it; a node of depth \<open>d\<close> is indexed at level
  \<open>TOP_LEVEL - d\<close>.
\<close>

definition top_nat :: "'k::len itself \<Rightarrow> nat" where
  "top_nat t = (KEY_BITS t - 1) div BITS"

definition chunk :: "nat \<Rightarrow> 'k::len word \<Rightarrow> nat" where
  "chunk L k = (unat k div 2 ^ (L * BITS)) mod 2 ^ BITS"

definition agree :: "nat \<Rightarrow> 'k::len word \<Rightarrow> 'k word \<Rightarrow> bool" where
  "agree d k k' =
     (unat k div 2 ^ ((top_nat TYPE('k) + 1 - d) * BITS) = unat k' div 2 ^ ((top_nat TYPE('k) + 1 - d) * BITS))"

definition level_at :: "'k::len itself \<Rightarrow> nat \<Rightarrow> uint32_t" where
  "level_at t d = TOP_LEVEL t - of_nat d"

type_synonym 'k pos = "uintptr_t \<Rightarrow> (nat \<times> 'k word) option"

definition slot_ok :: "'k::len tree_mem \<Rightarrow> 'k pos \<Rightarrow> nat \<Rightarrow> 'k word \<Rightarrow> nat \<Rightarrow> RadixElement \<Rightarrow> bool" where
  "slot_ok m pos d kp i x =
     (if isNode x then
        d < top_nat TYPE('k) \<and>
        (\<exists>kp'. pos x = Some (Suc d, kp') \<and> agree d kp' kp \<and> chunk (top_nat TYPE('k) - d) kp' = i)
      else
        x = RadixElement_default \<or>
        (\<exists>l k'. getLeaf x = Inr l \<and> objs m l = Some k' \<and> agree d k' kp
           \<and> chunk (top_nat TYPE('k) - d) k' = i))"

definition root_ok :: "'k::len tree_mem \<Rightarrow> 'k pos \<Rightarrow> RadixElement \<Rightarrow> bool" where
  "root_ok m pos x =
     (if isNode x then (\<exists>kp. pos x = Some (0, kp))
      else x = RadixElement_default \<or> (\<exists>l k'. getLeaf x = Inr l \<and> objs m l = Some k'))"

definition mem_inv :: "'k::len tree_mem \<Rightarrow> 'k pos \<Rightarrow> bool" where
  "mem_inv m pos =
     (LENGTH('k) \<le> 2 ^ 32 \<and>
      root_ok m pos (root m) \<and>
      (\<forall>a cs. nodes m a = Some cs \<longrightarrow> length cs = CHILD_PER_LEVEL) \<and>
      (\<forall>a d kp. pos a = Some (d, kp) \<longrightarrow>
         d \<le> top_nat TYPE('k) \<and>
         (\<exists>cs. nodes m a = Some cs \<and> (\<forall>i<CHILD_PER_LEVEL. slot_ok m pos d kp i (cs ! i)))) \<and>
      distinct (free_nodes m) \<and>
      (\<forall>a\<in>set (free_nodes m). nodes m a = None \<and> a \<noteq> 0 \<and> \<not> bit a 0) \<and>
      (\<forall>l k. objs m l = Some k \<longrightarrow> l \<noteq> 0 \<and> \<not> bit l 0))"

text \<open>slot p lies at depth d on the way of key k\<close>

definition slot_at :: "'k::len pos \<Rightarrow> slot_ptr \<Rightarrow> nat \<Rightarrow> 'k word \<Rightarrow> bool" where
  "slot_at pos p d k =
     (case p of
        Root \<Rightarrow> d = 0
      | Child a i \<Rightarrow>
          (\<exists>d' kp. d = Suc d' \<and> pos a = Some (d', kp) \<and> agree d' k kp
             \<and> i = chunk (top_nat TYPE('k) - d') k))"

definition elem_ok :: "'k::len tree_mem \<Rightarrow> 'k pos \<Rightarrow> nat \<Rightarrow> 'k word \<Rightarrow> RadixElement \<Rightarrow> bool" where
  "elem_ok m pos d k x =
     (if isNode x then d \<le> top_nat TYPE('k) \<and> (\<exists>kp. pos x = Some (d, kp) \<and> agree d kp k)
      else x = RadixElement_default \<or> (\<exists>l k'. getLeaf x = Inr l \<and> objs m l = Some k' \<and> agree d k' k))"

section \<open>The way of a key and the state of a thread\<close>

text \<open>
  \<open>path_slot m k d\<close> is the slot that the descent for key \<open>k\<close> reaches after \<open>d\<close> nodes.
  \<open>thr_at\<close> relates the local variables of a thread of \<^verbatim>\<open>insert\<close> to the memory.
\<close>

fun path_slot :: "'k::len tree_mem \<Rightarrow> 'k word \<Rightarrow> nat \<Rightarrow> slot_ptr option" where
  "path_slot m k 0 = Some Root"
| "path_slot m k (Suc d) =
     (case path_slot m k d of
        None \<Rightarrow> None
      | Some p \<Rightarrow>
          (case load m p of
             Inl f \<Rightarrow> None
           | Inr x \<Rightarrow> if isNode x then Some (Child x (chunk (top_nat TYPE('k) - d) k)) else None))"

definition priv_node :: "'k::len tree_mem \<Rightarrow> 'k pos \<Rightarrow> 'k ins_thread \<Rightarrow> bool" where
  "priv_node m pos t =
     (\<exists>l leafKey n.
        getLeaf (ie t) = Inr l \<and> objs m l = Some leafKey \<and> leafKey \<noteq> ikey t \<and>
        RadixNode_new (ilevel t) leafKey (ie t) = Inr n \<and> nodes m (inewChild t) = Some n \<and>
        pos (inewChild t) = None \<and> inewChild t \<noteq> 0 \<and> \<not> bit (inewChild t) 0)"

definition e_ok :: "'k::len tree_mem \<Rightarrow> 'k pos \<Rightarrow> 'k ins_thread \<Rightarrow> nat \<Rightarrow> bool" where
  "e_ok m pos t d =
     (elem_ok m pos d (ikey t) (ie t) \<and> (isNode (ie t) \<longrightarrow> load m (ieptr t) = Inr (ie t)))"

definition thr_at :: "'k::len tree_mem \<Rightarrow> 'k pos \<Rightarrow> 'k ins_thread \<Rightarrow> nat \<Rightarrow> bool" where
  "thr_at m pos t d =
     (objs m (ivalue t) = Some (ikey t) \<and>
      path_slot m (ikey t) d = Some (ieptr t) \<and>
      ilevel t = level_at TYPE('k) d \<and>
      (case ipc t of
         PLoad \<Rightarrow> True
       | PWhile \<Rightarrow> e_ok m pos t d
       | PNode \<Rightarrow> e_ok m pos t d \<and> isNode (ie t)
       | PLeaf \<Rightarrow> e_ok m pos t d \<and> \<not> isNode (ie t) \<and> ie t \<noteq> RadixElement_default
       | PCas \<Rightarrow> e_ok m pos t d \<and> \<not> isNode (ie t) \<and> ie t \<noteq> RadixElement_default
           \<and> priv_node m pos t
       | PRet b \<Rightarrow> True))"

definition nodes_kept :: "'k::len tree_mem \<Rightarrow> 'k tree_mem \<Rightarrow> bool" where
  "nodes_kept m m' = (\<forall>q x. load m q = Inr x \<longrightarrow> isNode x \<longrightarrow> load m' q = Inr x)"

section \<open>Lookup along the way of a key\<close>

text \<open>
  The result of \<^verbatim>\<open>get\<close> read off the element at the end of the way, and \<^verbatim>\<open>get\<close> run
  with a counter of its loads.
\<close>

definition leaf_result :: "'k::len tree_mem \<Rightarrow> 'k word \<Rightarrow> RadixElement \<Rightarrow> uintptr_t" where
  "leaf_result m k x =
     (case getLeaf x of
        Inl f \<Rightarrow> 0
      | Inr l \<Rightarrow> (case objs m l of None \<Rightarrow> 0 | Some k' \<Rightarrow> if k' = k then l else 0))"

definition path_end :: "'k::len tree_mem \<Rightarrow> 'k word \<Rightarrow> nat \<Rightarrow> slot_ptr \<Rightarrow> RadixElement \<Rightarrow> bool" where
  "path_end m k d p x = (path_slot m k d = Some p \<and> load m p = Inr x \<and> \<not> isNode x)"

definition get_loads :: "'k get_thread \<Rightarrow> nat" where
  "get_loads t = (case gpc t of GLoad \<Rightarrow> 1 | GWhile \<Rightarrow> if isNode (ge t) then 1 else 0 | GRet r \<Rightarrow> 0)"

partial_function (option) get_run_ops ::
  "nat \<Rightarrow> 'k::len tree_mem \<Rightarrow> 'k get_thread \<Rightarrow> (fault + ('k get_thread \<times> nat)) option" where
  "get_run_ops c m t =
     (case gpc t of
        GRet r \<Rightarrow> Some (Inr (t, c))
      | _ \<Rightarrow>
          (case get_step m t of
             Inl f \<Rightarrow> Some (Inl f)
           | Inr t' \<Rightarrow> get_run_ops (c + get_loads t) m t'))"

definition get_ret :: "'k get_thread \<Rightarrow> uintptr_t" where
  "get_ret t = (case gpc t of GRet r \<Rightarrow> r | _ \<Rightarrow> 0)"

definition strip_get :: "fault + ('k get_thread \<times> nat) \<Rightarrow> fault + uintptr_t" where
  "strip_get r = (case r of Inl f \<Rightarrow> Inl f | Inr (t, c) \<Rightarrow> Inr (get_ret t))"

definition RadixTree_get_ops :: "'k::len tree_mem \<Rightarrow> 'k word \<Rightarrow> (fault + ('k get_thread \<times> nat)) option" where
  "RadixTree_get_ops m k = get_run_ops 0 m (get_begin k)"

section \<open>Counting the steps of insert\<close>

text \<open>
  A run of \<^verbatim>\<open>insert\<close> with a counter. \<open>slot_ops\<close> counts every access to a slot (load,
  store, compare-and-swap), \<open>slot_loads\<close> the loads, \<open>cas_attempts\<close> the
  compare-and-swaps and \<open>cas_fails\<close> those that fail.
\<close>

definition slot_ops :: "'k::len tree_mem \<Rightarrow> 'k ins_thread \<Rightarrow> nat" where
  "slot_ops m t =
     (case ipc t of
        PLoad \<Rightarrow> 1
      | PWhile \<Rightarrow> if isNode (ie t) then 1 else if getLeaf (ie t) = Inr 0 then 1 else 0
      | PNode \<Rightarrow> 1
      | PLeaf \<Rightarrow>
          (case getLeaf (ie t) of
             Inl f \<Rightarrow> 0
           | Inr l \<Rightarrow> (case objs m l of None \<Rightarrow> 0 | Some leafKey \<Rightarrow> if ikey t = leafKey then 0 else 1))
      | PCas \<Rightarrow> 1
      | PRet b \<Rightarrow> 0)"




partial_function (option) insert_run_cost ::
  "('k::len tree_mem \<Rightarrow> 'k ins_thread \<Rightarrow> nat) \<Rightarrow> nat \<Rightarrow> 'k tree_mem \<Rightarrow> 'k ins_thread
    \<Rightarrow> (fault + ('k tree_mem \<times> 'k ins_thread \<times> nat)) option" where
  "insert_run_cost cost c m t =
     (case ipc t of
        PRet b \<Rightarrow> Some (Inr (m, t, c))
      | _ \<Rightarrow>
          (case insert_step m t of
             Inl f \<Rightarrow> Some (Inl f)
           | Inr (m', t') \<Rightarrow> insert_run_cost cost (c + cost m t) m' t'))"

definition insert_run_ops ::
  "nat \<Rightarrow> 'k::len tree_mem \<Rightarrow> 'k ins_thread \<Rightarrow> (fault + ('k tree_mem \<times> 'k ins_thread \<times> nat)) option" where
  "insert_run_ops c m t = insert_run_cost slot_ops c m t"

definition ret_of :: "'k ins_thread \<Rightarrow> bool" where
  "ret_of t = (case ipc t of PRet b \<Rightarrow> b | _ \<Rightarrow> False)"

definition strip_ops :: "fault + ('k tree_mem \<times> 'k ins_thread \<times> nat) \<Rightarrow> fault + ('k tree_mem \<times> bool)" where
  "strip_ops r = (case r of Inl f \<Rightarrow> Inl f | Inr (m, t, c) \<Rightarrow> Inr (m, ret_of t))"


definition ins_post ::
  "'k::len tree_mem \<Rightarrow> 'k word \<Rightarrow> uintptr_t \<Rightarrow> nat \<Rightarrow> nat
    \<Rightarrow> fault + ('k tree_mem \<times> 'k ins_thread \<times> nat) \<Rightarrow> bool" where
  "ins_post m k v d c r =
     ((r = Inl BadAlloc \<and> length (free_nodes m) < top_nat TYPE('k) + 1 - d) \<or>
      (\<exists>m' t' c' pos' b. r = Inr (m', t', c') \<and> ipc t' = PRet b \<and>
         mem_inv m' pos' \<and> objs m' = objs m \<and>
         (\<exists>used. free_nodes m = used @ free_nodes m' \<and> length used \<le> top_nat TYPE('k) + 1 - d) \<and>
         c' \<le> c + 4 * (top_nat TYPE('k) + 1 - d) + 1 \<and>
         (\<exists>d'. d \<le> d' \<and> d' \<le> top_nat TYPE('k) + 1 \<and> ilevel t' = level_at TYPE('k) d') \<and>
         b = (RadixTree_get m k = Some (Inr 0)) \<and>
         (\<not> b \<longrightarrow> m' = m) \<and>
         (b \<longrightarrow> (\<forall>k'. RadixTree_get m' k' = (if k' = k then Some (Inr v) else RadixTree_get m k')))))"

section \<open>Trees reached by insertions\<close>

text \<open>
  The trees that calls running one after the other build from the empty tree.
\<close>

definition RadixTree_insert_cost ::
  "('k::len tree_mem \<Rightarrow> 'k ins_thread \<Rightarrow> nat) \<Rightarrow> 'k tree_mem \<Rightarrow> uintptr_t
    \<Rightarrow> (fault + ('k tree_mem \<times> 'k ins_thread \<times> nat)) option" where
  "RadixTree_insert_cost cost m v =
     (case insert_begin m v of Inl f \<Rightarrow> Some (Inl f) | Inr t \<Rightarrow> insert_run_cost cost 0 m t)"

definition heap_ok :: "(uintptr_t \<Rightarrow> 'k::len word option) \<Rightarrow> uintptr_t list \<Rightarrow> bool" where
  "heap_ok os fs =
     (LENGTH('k) \<le> 2 ^ 32 \<and> distinct fs \<and> (\<forall>a\<in>set fs. a \<noteq> 0 \<and> \<not> bit a 0) \<and>
      (\<forall>l k. os l = Some k \<longrightarrow> l \<noteq> 0 \<and> \<not> bit l 0))"

inductive reachable :: "'k::len tree_mem \<Rightarrow> bool" where
  new: "heap_ok os fs \<Longrightarrow> reachable (RadixTree_new os fs)"
| ins: "reachable m \<Longrightarrow> RadixTree_insert m v = Some (Inr (m', b)) \<Longrightarrow> reachable m'"

fun insert_all :: "'k::len tree_mem \<Rightarrow> uintptr_t list \<Rightarrow> (fault + 'k tree_mem) option" where
  "insert_all m [] = Some (Inr m)"
| "insert_all m (v # vs) =
     (case RadixTree_insert m v of
        None \<Rightarrow> None
      | Some (Inl f) \<Rightarrow> Some (Inl f)
      | Some (Inr (m', b)) \<Rightarrow> insert_all m' vs)"


section \<open>A small tree\<close>

text \<open>
  Three objects with 8-bit ids, two of them with the same id, and four free nodes: the
  tree that holds the first object in its root, the tree whose root has become a node, and
  a thread that inserts the second object and stands at the root node.
\<close>

definition ex_objs :: "uintptr_t \<Rightarrow> 8 word option" where
  "ex_objs a = (if a = 0x100 then Some 0x12 else if a = 0x200 then Some 0x13
                else if a = 0x300 then Some 0x12 else None)"

definition ex_free :: "uintptr_t list" where
  "ex_free = [0x1000, 0x2000, 0x3000, 0x4000]"

definition ex_tree1 :: "8 tree_mem" where
  "ex_tree1 = \<lparr>root = 0x101, nodes = (\<lambda>a. None), objs = ex_objs, free_nodes = ex_free\<rparr>"

definition ex_tree2 :: "8 tree_mem" where
  "ex_tree2 = \<lparr>root = 0x1000,
     nodes = (\<lambda>a. None)(0x1000 \<mapsto> (replicate 16 1)[1 := 0x101]),
     objs = ex_objs, free_nodes = [0x2000, 0x3000, 0x4000]\<rparr>"

definition ex_thread :: "8 ins_thread" where
  "ex_thread = \<lparr>ikey = 0x13, ivalue = 0x200, ilevel = 1, ieptr = Root, ie = 0x1000,
     inewChild = 0, ipc = PWhile\<rparr>"

section \<open>The tagged word and the slot index\<close>

lemma and1_eq0_iff: "(raw :: 'a::len word) AND 1 = 0 \<longleftrightarrow> \<not> bit raw 0"
  by (simp add: and_one_eq bit_0 mod_2_eq_odd)

lemma getDiscriminent_iff: "getDiscriminent raw \<longleftrightarrow> bit raw 0"
  by (simp add: getDiscriminent_def DISCRIMINANT_def and1_eq0_iff)

lemma isNode_iff: "isNode raw \<longleftrightarrow> \<not> bit raw 0"
  by (simp add: isNode_def getDiscriminent_iff)

lemma isLeaf_iff: "isLeaf raw \<longleftrightarrow> bit raw 0"
  by (simp add: isLeaf_def getDiscriminent_iff)

lemma bit_not_1: "bit (NOT (1::'a::len word)) n \<longleftrightarrow> n < LENGTH('a) \<and> n \<noteq> 0"
  by (auto simp add: bit_not_iff bit_1_iff dest: bit_imp_le_length)

lemma and_not1: "(raw :: 'a::len word) AND NOT 1 = unset_bit 0 raw"
  by (rule bit_eqI) (auto simp add: bit_and_iff bit_not_1 bit_unset_bit_iff)

lemma leaf_roundtrip: "\<not> bit p 0 \<Longrightarrow> RadixElement_leaf p AND NOT DISCRIMINANT = p"
  unfolding RadixElement_leaf_def DISCRIMINANT_def
  apply (rule bit_eqI)
  subgoal for n
    by (cases "n = 0") (auto simp add: bit_and_iff bit_or_iff bit_not_1 bit_1_iff dest: bit_imp_le_length)
  done

lemma bit0_leaf: "bit (RadixElement_leaf p) 0"
  by (simp add: RadixElement_leaf_def DISCRIMINANT_def bit_or_iff bit_1_iff)

lemma drop_leaf: "drop_bit 1 (RadixElement_leaf p) = drop_bit 1 p"
  unfolding RadixElement_leaf_def DISCRIMINANT_def
  by (rule bit_eqI) (auto simp add: bit_drop_bit_eq bit_or_iff bit_1_iff)

lemma upper_zero:
  assumes "bit (raw::uintptr_t) 0"
  shows "(raw AND NOT DISCRIMINANT = 0) = (raw = RadixElement_default)"
proof
  assume z: "raw AND NOT DISCRIMINANT = 0"
  have "bit raw n = bit (1::uintptr_t) n" for n
  proof (cases "n = 0")
    case True
    with assms show ?thesis by (simp add: bit_1_iff)
  next
    case False
    have "\<not> bit (raw AND NOT DISCRIMINANT) n" using z by simp
    then have "\<not> bit raw n"
      using False by (auto simp add: DISCRIMINANT_def bit_and_iff bit_not_1 dest: bit_imp_le_length)
    with False show ?thesis by (simp add: bit_1_iff)
  qed
  then show "raw = RadixElement_default"
    unfolding RadixElement_default_def DISCRIMINANT_def by (rule bit_eqI)
next
  assume "raw = RadixElement_default"
  then show "raw AND NOT DISCRIMINANT = 0"
    by (simp add: RadixElement_default_def DISCRIMINANT_def)
qed

lemma drop1_and_not1: "drop_bit 1 (raw::'a::len word) = 0 \<longleftrightarrow> raw AND NOT 1 = 0"
proof
  assume a: "drop_bit 1 raw = 0"
  show "raw AND NOT 1 = 0"
  proof (rule bit_eqI)
    fix n
    have "\<not> bit (drop_bit 1 raw) (n - 1)" using a by simp
    then show "bit (raw AND NOT 1) n = bit (0::'a word) n"
      by (cases n) (auto simp add: bit_and_iff bit_not_1 bit_drop_bit_eq)
  qed
next
  assume a: "raw AND NOT 1 = 0"
  show "drop_bit 1 raw = 0"
  proof (rule bit_eqI)
    fix n
    have "\<not> bit (raw AND NOT 1) (Suc n)" using a by simp
    then show "bit (drop_bit 1 raw) n = bit (0::'a word) n"
      by (auto simp add: bit_and_iff bit_not_1 bit_drop_bit_eq dest: bit_imp_le_length)
  qed
qed

text \<open>
  Claim C5. The word 1 (low bit set, all upper bits clear) is the element of the default
  constructor, the empty slot. For a pointer \<open>p\<close> with alignment 2 or more the leaf
  constructor sets the low bit and keeps the upper bits, and \<open>getLeaf\<close> gives \<open>p\<close> back
  by clearing the low bit; the node constructor keeps the word of a node pointer \<open>n\<close> as
  it is and \<open>getNode\<close> returns it. On any word, \<open>isNode\<close> and \<open>isLeaf\<close> read the low
  bit, and the accessor of the other tag fails its assertion. The empty slot is the one leaf
  word whose pointer is null.
\<close>

theorem RadixElement_encoding:
  fixes p n raw :: uintptr_t
  assumes "\<not> bit p 0" and "\<not> bit n 0"
  shows "RadixElement_default = 1
    \<and> isLeaf RadixElement_default \<and> getLeaf RadixElement_default = Inr 0
    \<and> bit (RadixElement_leaf p) 0 \<and> drop_bit 1 (RadixElement_leaf p) = drop_bit 1 p
    \<and> isLeaf (RadixElement_leaf p) \<and> \<not> isNode (RadixElement_leaf p)
    \<and> getLeaf (RadixElement_leaf p) = Inr p
    \<and> getNode (RadixElement_leaf p) = Inl AssertionFailure
    \<and> RadixElement_node n = n
    \<and> isNode (RadixElement_node n) \<and> \<not> isLeaf (RadixElement_node n)
    \<and> getNode (RadixElement_node n) = Inr n
    \<and> getLeaf (RadixElement_node n) = Inl AssertionFailure
    \<and> isNode raw = (\<not> bit raw 0) \<and> isLeaf raw = bit raw 0
    \<and> getNode raw = (if bit raw 0 then Inl AssertionFailure else Inr raw)
    \<and> getLeaf raw = (if bit raw 0 then Inr (unset_bit 0 raw) else Inl AssertionFailure)
    \<and> (getLeaf raw = Inr 0) = (raw = RadixElement_default)
    \<and> (raw = RadixElement_default) = (bit raw 0 \<and> drop_bit 1 raw = 0)"
proof -
  have d: "RadixElement_default = 1"
    by (simp add: RadixElement_default_def DISCRIMINANT_def)
  have gl: "getLeaf raw = (if bit raw 0 then Inr (unset_bit 0 raw) else Inl AssertionFailure)" for raw
    unfolding getLeaf_def isLeaf_iff DISCRIMINANT_def and_not1 by simp
  have gn: "getNode raw = (if bit raw 0 then Inl AssertionFailure else Inr raw)" for raw
    by (simp add: getNode_def isNode_iff)
  have d1: "isLeaf RadixElement_default"
    by (simp add: isLeaf_iff d bit_1_iff)
  have d2: "getLeaf RadixElement_default = Inr 0"
    by (simp add: getLeaf_def d1) (simp add: d DISCRIMINANT_def)
  have l1: "isLeaf (RadixElement_leaf p)" and l2: "\<not> isNode (RadixElement_leaf p)"
    by (simp_all add: isLeaf_iff isNode_iff bit0_leaf)
  have l3: "getLeaf (RadixElement_leaf p) = Inr p"
    using assms(1) by (simp add: getLeaf_def l1 leaf_roundtrip)
  have l4: "getNode (RadixElement_leaf p) = Inl AssertionFailure"
    by (simp add: getNode_def l2)
  have n0: "RadixElement_node n = n"
    by (simp add: RadixElement_node_def)
  have n1: "isNode (RadixElement_node n)" and n2: "\<not> isLeaf (RadixElement_node n)"
    using assms(2) by (simp_all add: isLeaf_iff isNode_iff n0)
  have n3: "getNode (RadixElement_node n) = Inr n"
    using n1 by (simp add: getNode_def n0)
  have n4: "getLeaf (RadixElement_node n) = Inl AssertionFailure"
    using n2 by (simp add: getLeaf_def)
  have e1: "(getLeaf raw = Inr 0) = (raw = RadixElement_default)"
  proof (cases "bit raw 0")
    case True
    then show ?thesis
      using upper_zero [OF True] by (simp add: getLeaf_def isLeaf_iff)
  next
    case False
    then show ?thesis
      by (auto simp add: getLeaf_def isLeaf_iff d bit_1_iff)
  qed
  have e2: "(raw = RadixElement_default) = (bit raw 0 \<and> drop_bit 1 raw = 0)"
  proof (cases "bit raw 0")
    case True
    have "(drop_bit 1 raw = 0) = (raw AND NOT DISCRIMINANT = 0)"
      unfolding DISCRIMINANT_def by (rule drop1_and_not1)
    with True show ?thesis
      using upper_zero [OF True] by simp
  next
    case False
    then show ?thesis by (auto simp add: d bit_1_iff)
  qed
  note all = d d1 d2 bit0_leaf drop_leaf l1 l2 l3 l4 n0 n1 n2 n3 n4 isNode_iff isLeaf_iff gn gl e1 e2
  show ?thesis
    by (intro conjI) (rule all)+
qed

theorem RadixElement_encoding_witness:
  "\<not> bit (0x1000 :: uintptr_t) 0 \<and> \<not> bit (0x2000 :: uintptr_t) 0
   \<and> RadixElement_leaf 0x1000 = 0x1001 \<and> getLeaf (RadixElement_leaf 0x1000) = Inr 0x1000
   \<and> getNode (RadixElement_node 0x2000) = Inr 0x2000
   \<and> getLeaf (0x2000 :: uintptr_t) = Inl AssertionFailure
   \<and> isLeaf (0x1001 :: uintptr_t)"
proof -
  have h1: "\<not> bit (0x1000 :: uintptr_t) 0" by (simp add: bit_0)
  have h2: "\<not> bit (0x2000 :: uintptr_t) 0" by (simp add: bit_0)
  have h3: "bit (0x1001 :: uintptr_t) 0" by (simp add: bit_0)
  have v: "RadixElement_leaf 0x1000 = 0x1001"
    by (simp add: RadixElement_leaf_def DISCRIMINANT_def)
  show ?thesis
    using RadixElement_encoding [OF h1 h2, of "0x2000"] RadixElement_encoding [OF h1 h2, of "0x1001"]
      h1 h2 h3 v
    by simp
qed

lemma unat_level_shift:
  fixes level :: uint32_t
  assumes "unat level * 4 < 2 ^ 32"
  shows "unat (level * of_nat BITS) = unat level * 4"
  using assms by (simp add: BITS_def unat_word_ariths)

lemma MASK_eq: "MASK = 15"
  by (simp add: MASK_def BITS_def)

lemma chunk_unat:
  fixes key :: "'k::len word"
  shows "unat (drop_bit sh key AND 15) = (unat key div 2 ^ sh) mod 16"
proof -
  have "drop_bit sh key AND 15 = take_bit 4 (drop_bit sh key)"
    by (simp add: take_bit_eq_mask mask_eq_exp_minus_1)
  then have "unat (drop_bit sh key AND 15) = take_bit 4 (drop_bit sh (unat key))"
    by (simp only: unsigned_take_bit_eq unat_drop_bit_eq)
  then show ?thesis
    by (simp only: take_bit_eq_mod drop_bit_eq_div) simp
qed

lemma child_index_eq:
  fixes key :: "'k::len word" and level :: uint32_t
  assumes "unat level * 4 < max 32 LENGTH('k)" and "LENGTH('k) \<le> 2 ^ 32"
  shows "child_index level key = Inr ((unat key div 2 ^ (unat level * 4)) mod 16)"
proof -
  have "unat level * 4 < 2 ^ 32" using assms by (simp add: max_def split: if_splits)
  then have "unat (level * of_nat BITS) = unat level * 4" by (rule unat_level_shift)
  moreover have "\<not> max 32 LENGTH('k) \<le> unat level * 4" using assms(1) by linarith
  ultimately show ?thesis
    by (simp only: child_index_def Let_def if_False MASK_eq) (simp add: chunk_unat)
qed

text \<open>
  Claim C6. With a chunk width of \<open>BITS = 4\<close> and \<open>CHILD_PER_LEVEL = 16\<close> slots in a
  node, \<open>RadixNode_get\<close> at level \<open>L\<close> selects the slot whose array index is
  \<open>(key >> (L * BITS)) & ((1 << BITS) - 1)\<close>, that is \<open>key div 2 ^ (L * BITS) mod 2 ^ BITS\<close>,
  for every key and every level whose shift stays below the width of the key, which are
  the levels 0 to \<open>TOP_LEVEL\<close> of the tree; the top level is \<open>(KEY_BITS - 1) div BITS\<close>,
  where \<open>KEY_BITS\<close> is the width of the key type.
\<close>

theorem RadixNode_get_index:
  fixes key :: "'k::len word" and level :: uint32_t
  assumes "unat level * BITS < KEY_BITS TYPE('k)" and "KEY_BITS TYPE('k) \<le> 2 ^ 32"
  shows "BITS = 4 \<and> CHILD_PER_LEVEL = 2 ^ BITS \<and> CHILD_PER_LEVEL = 16 \<and> MASK = 2 ^ BITS - 1
    \<and> KEY_BITS TYPE('k) = LENGTH('k)
    \<and> unat (TOP_LEVEL TYPE('k)) = (KEY_BITS TYPE('k) - 1) div BITS
    \<and> RadixNode_get n level key
        = Inr (Child n (unat (drop_bit (unat level * BITS) key AND mask BITS)))
    \<and> unat (drop_bit (unat level * BITS) key AND mask BITS)
        = (unat key div 2 ^ (unat level * BITS)) mod 2 ^ BITS
    \<and> unat (drop_bit (unat level * BITS) key AND mask BITS) < CHILD_PER_LEVEL"
proof -
  have a: "unat level * 4 < max 32 LENGTH('k)" and b: "LENGTH('k) \<le> 2 ^ 32"
    using assms by (simp_all add: BITS_def KEY_BITS_def max_def)
  have m: "mask 4 = (15 :: 'k word)" by (simp add: mask_eq_exp_minus_1)
  have "(LENGTH('k) - 1) div 4 < 2 ^ 32" using b by simp
  then have t: "unat (TOP_LEVEL TYPE('k)) = (LENGTH('k) - 1) div 4"
    by (simp add: TOP_LEVEL_def KEY_BITS_def BITS_def unat_of_nat)
  show ?thesis
    using child_index_eq [OF a b, of key]
    by (simp add: RadixNode_get_def BITS_def CHILD_PER_LEVEL_def MASK_def KEY_BITS_def m chunk_unat t [simplified KEY_BITS_def])
qed

theorem RadixNode_get_index_witness:
  "unat (1 :: uint32_t) * BITS < KEY_BITS TYPE(32) \<and> KEY_BITS TYPE(32) \<le> 2 ^ 32
   \<and> unat (TOP_LEVEL TYPE(32)) = 7
   \<and> RadixNode_get 0x2000 1 (0x1234ABCD :: 32 word) = Inr (Child 0x2000 12)"
proof -
  have h1: "unat (1 :: uint32_t) * BITS < KEY_BITS TYPE(32)"
    by (simp add: BITS_def KEY_BITS_def)
  have h2: "KEY_BITS TYPE(32) \<le> 2 ^ 32" by (simp add: KEY_BITS_def)
  show ?thesis
    using RadixNode_get_index [OF h1 h2, of "0x2000" "0x1234ABCD"] h1 h2
    by (simp add: BITS_def KEY_BITS_def)
qed

section \<open>Key chunks and levels\<close>

lemma top_nat_eq: "top_nat TYPE('k::len) = (LENGTH('k) - 1) div 4"
  by (simp add: top_nat_def KEY_BITS_def BITS_def)

lemma top_nat_bound: "LENGTH('k::len) \<le> 4 * (top_nat TYPE('k) + 1)"
proof -
  have "n \<le> 4 * ((n - 1) div 4 + 1)" for n :: nat by presburger
  then show ?thesis unfolding top_nat_eq .
qed

lemma agree_refl [simp]: "agree d k k"
  by (simp add: agree_def)

lemma agree_sym: "agree d k k' \<Longrightarrow> agree d k' k"
  by (simp add: agree_def)

lemma agree_trans: "agree d k k' \<Longrightarrow> agree d k' k'' \<Longrightarrow> agree d k k''"
  by (simp add: agree_def)

lemma agree_0 [simp]: "agree 0 (k::'k::len word) k'"
proof -
  have "unat x div 2 ^ ((top_nat TYPE('k) + 1) * BITS) = 0" for x :: "'k word"
  proof -
    have "unat x < 2 ^ LENGTH('k)" by simp
    also have "\<dots> \<le> 2 ^ ((top_nat TYPE('k) + 1) * BITS)"
      using top_nat_bound [where 'k='k] by (simp add: BITS_def mult.commute)
    finally show ?thesis by simp
  qed
  then show ?thesis by (simp add: agree_def)
qed

lemma agree_full: "top_nat TYPE('k) < d \<Longrightarrow> agree d (k::'k::len word) k' \<longleftrightarrow> k = k'"
  by (simp add: agree_def word_unat_eq_iff)

lemma div_mod_16: "(a::nat) = b \<longleftrightarrow> a div 16 = b div 16 \<and> a mod 16 = b mod 16"
  by (metis div_mult_mod_eq)

lemma agree_Suc:
  assumes "d \<le> top_nat TYPE('k)"
  shows "agree (Suc d) (k::'k::len word) k' \<longleftrightarrow> agree d k k' \<and> chunk (top_nat TYPE('k) - d) k = chunk (top_nat TYPE('k) - d) k'"
proof -
  define n where "n = top_nat TYPE('k) - d"
  have a: "top_nat TYPE('k) + 1 - Suc d = n" and b: "top_nat TYPE('k) + 1 - d = Suc n"
    using assms by (simp_all add: n_def)
  have "2 ^ (Suc n * 4) = (2::nat) ^ (n * 4) * 16" by (simp add: power_add)
  then have c: "x div 2 ^ (Suc n * 4) = x div 2 ^ (n * 4) div 16" for x :: nat
    by (simp only: div_mult2_eq)
  show ?thesis
    unfolding agree_def chunk_def a b n_def [symmetric] BITS_def c
    using div_mod_16 [of "unat k div 2 ^ (n * 4)" "unat k' div 2 ^ (n * 4)"] by simp
qed

lemma agree_mono: "agree d k k' \<Longrightarrow> d' \<le> d \<Longrightarrow> agree d' k k'"
proof -
  assume a: "agree d k k'" and le: "d' \<le> d"
  define e where "e = top_nat TYPE('a) + 1 - d"
  define e' where "e' = top_nat TYPE('a) + 1 - d'"
  have "e \<le> e'" using le by (simp add: e_def e'_def)
  then obtain j where j: "e' = e + j" by (auto simp add: le_iff_add)
  have "x div 2 ^ (e' * BITS) = x div 2 ^ (e * BITS) div 2 ^ (j * BITS)" for x :: nat
    by (simp add: j div_mult2_eq power_add add_mult_distrib)
  then show ?thesis using a unfolding agree_def e_def [symmetric] e'_def [symmetric] by simp
qed

lemma chunk_less [simp]: "chunk L k < 16"
  by (simp add: chunk_def BITS_def)

lemma unat_TOP_LEVEL: "LENGTH('k::len) \<le> 2 ^ 32 \<Longrightarrow> unat (TOP_LEVEL TYPE('k)) = top_nat TYPE('k)"
proof -
  assume "LENGTH('k) \<le> 2 ^ 32"
  then have "(LENGTH('k) - 1) div 4 < 2 ^ 32" by simp
  then show ?thesis
    by (simp add: TOP_LEVEL_def top_nat_def KEY_BITS_def BITS_def unat_of_nat)
qed

lemma unat_level_at:
  assumes "LENGTH('k::len) \<le> 2 ^ 32" and "d \<le> top_nat TYPE('k)"
  shows "unat (level_at TYPE('k) d) = top_nat TYPE('k) - d"
proof -
  have t: "top_nat TYPE('k) < 2 ^ 32" using assms(1) by (simp add: top_nat_eq)
  have "level_at TYPE('k) d = of_nat (top_nat TYPE('k) - d)"
    using assms(2) by (simp add: level_at_def TOP_LEVEL_def top_nat_def)
  then show ?thesis using t by (simp add: unat_of_nat)
qed

lemma level_at_Suc: "level_at t d - 1 = level_at t (Suc d)"
  by (simp add: level_at_def)

lemma level_at_0: "level_at t 0 = TOP_LEVEL t"
  by (simp add: level_at_def)

section \<open>Loads, stores and the invariant\<close>

section \<open>load and store\<close>

lemma load_store_same: "load m p = Inr x \<Longrightarrow> load (store m p y) p = Inr y"
  by (cases p) (auto simp add: load_def store_def split: option.splits if_splits)

lemma load_store_other: "q \<noteq> p \<Longrightarrow> load (store m p y) q = load m q"
  by (cases p; cases q) (auto simp add: load_def store_def split: option.splits)

lemma objs_store [simp]: "objs (store m p y) = objs m"
  by (cases p) (auto simp add: store_def split: option.splits)

lemma free_nodes_store [simp]: "free_nodes (store m p y) = free_nodes m"
  by (cases p) (auto simp add: store_def split: option.splits)

lemma nodes_store:
  "nodes (store m p y) b =
     (case p of Root \<Rightarrow> nodes m b
      | Child a i \<Rightarrow> if b = a then map_option (\<lambda>cs. cs[i := y]) (nodes m a) else nodes m b)"
  by (cases p) (auto simp add: store_def split: option.splits)

lemma root_store:
  "root (store m p y) = (case p of Root \<Rightarrow> y | Child a i \<Rightarrow> root m)"
  by (cases p) (auto simp add: store_def split: option.splits)

lemma nodes_store_None [simp]: "nodes (store m p y) b = None \<longleftrightarrow> nodes m b = None"
  by (simp add: nodes_store split: slot_ptr.splits)

section \<open>positions\<close>

lemma elem_okI_node:
  "isNode x \<Longrightarrow> d \<le> top_nat TYPE('k) \<Longrightarrow> pos x = Some (d, kp) \<Longrightarrow> agree d kp k
   \<Longrightarrow> elem_ok (m::'k::len tree_mem) pos d k x"
  by (auto simp add: elem_ok_def)

lemma mem_invD_pos:
  "mem_inv (m::'k::len tree_mem) pos \<Longrightarrow> pos a = Some (d, kp) \<Longrightarrow>
     d \<le> top_nat TYPE('k) \<and>
     (\<exists>cs. nodes m a = Some cs \<and> (\<forall>i<CHILD_PER_LEVEL. slot_ok m pos d kp i (cs ! i)))"
  unfolding mem_inv_def by (elim conjE allE [of _ a] allE [of _ d] allE [of _ kp]) simp

lemma mem_invD_len:
  "mem_inv (m::'k::len tree_mem) pos \<Longrightarrow> nodes m a = Some cs \<Longrightarrow> length cs = CHILD_PER_LEVEL"
  unfolding mem_inv_def by (elim conjE allE [of _ a] allE [of _ cs]) simp

lemma mem_inv_pos:
  assumes "mem_inv (m::'k::len tree_mem) pos" and "pos a = Some (d, kp)"
  obtains cs where "d \<le> top_nat TYPE('k)" and "nodes m a = Some cs"
    and "length cs = CHILD_PER_LEVEL" and "\<And>i. i < CHILD_PER_LEVEL \<Longrightarrow> slot_ok m pos d kp i (cs ! i)"
proof -
  from mem_invD_pos [OF assms] obtain cs where 1: "d \<le> top_nat TYPE('k)"
    and 2: "nodes m a = Some cs" and 3: "\<forall>i<CHILD_PER_LEVEL. slot_ok m pos d kp i (cs ! i)"
    by blast
  from mem_invD_len [OF assms(1) 2] have 4: "length cs = CHILD_PER_LEVEL" .
  from 1 2 3 4 that show thesis by blast
qed

lemma CHILD_PER_LEVEL_16 [simp]: "CHILD_PER_LEVEL = 16"
  by (simp add: CHILD_PER_LEVEL_def BITS_def)

lemma slot_at_load:
  assumes inv: "mem_inv (m::'k::len tree_mem) pos" and at: "slot_at pos p d k"
  shows "\<exists>x. load m p = Inr x \<and> elem_ok m pos d k x"
proof (cases p)
  case Root
  then have d: "d = 0" using at by (simp add: slot_at_def)
  have "root_ok m pos (root m)" using inv by (simp add: mem_inv_def)
  then have "elem_ok m pos 0 k (root m)"
    by (auto simp add: root_ok_def elem_ok_def)
  then show ?thesis using Root d by (simp add: load_def)
next
  case (Child a i)
  then obtain d' kp where d: "d = Suc d'" and pa: "pos a = Some (d', kp)"
    and ag: "agree d' k kp" and i: "i = chunk (top_nat TYPE('k) - d') k"
    using at by (auto simp add: slot_at_def)
  from mem_inv_pos [OF inv pa] obtain cs where le: "d' \<le> top_nat TYPE('k)"
    and cs: "nodes m a = Some cs" and len: "length cs = CHILD_PER_LEVEL"
    and ok: "\<And>j. j < CHILD_PER_LEVEL \<Longrightarrow> slot_ok m pos d' kp j (cs ! j)" by blast
  have i16: "i < CHILD_PER_LEVEL" using i by simp
  have ld: "load m p = Inr (cs ! i)" using Child cs len i16 by (simp add: load_def)
  have sk: "slot_ok m pos d' kp i (cs ! i)" using ok i16 by blast
  have "elem_ok m pos (Suc d') k (cs ! i)"
  proof (cases "isNode (cs ! i)")
    case True
    with sk obtain kp' where lt: "d' < top_nat TYPE('k)" and p': "pos (cs ! i) = Some (Suc d', kp')"
      and a': "agree d' kp' kp" and c': "chunk (top_nat TYPE('k) - d') kp' = i"
      by (auto simp add: slot_ok_def)
    have "agree (Suc d') kp' k"
      using a' c' ag i le by (auto simp add: agree_Suc intro: agree_trans agree_sym)
    then show ?thesis using True lt p' by (auto simp add: elem_ok_def)
  next
    case False
    show ?thesis
    proof (cases "cs ! i = RadixElement_default")
      case True
      then show ?thesis using False by (simp add: elem_ok_def)
    next
      case ne: False
      with sk False obtain l k' where gl: "getLeaf (cs ! i) = Inr l" and ob: "objs m l = Some k'"
        and a': "agree d' k' kp" and c': "chunk (top_nat TYPE('k) - d') k' = i"
        by (auto simp add: slot_ok_def)
      have "agree (Suc d') k' k"
        using a' c' ag i le by (auto simp add: agree_Suc intro: agree_trans agree_sym)
      then show ?thesis using False gl ob by (auto simp add: elem_ok_def)
    qed
  qed
  then show ?thesis using ld d by simp
qed

lemma slot_at_unique:
  assumes inv: "mem_inv (m::'k::len tree_mem) pos"
    and "slot_at pos p d k" and "slot_at pos p d' k'"
  shows "d = d' \<and> agree d k k'"
proof (cases p)
  case Root
  then show ?thesis using assms by (simp add: slot_at_def)
next
  case (Child a i)
  then obtain e kp where d: "d = Suc e" "d' = Suc e" and pa: "pos a = Some (e, kp)"
    and ag: "agree e k kp" "agree e k' kp"
    and i: "i = chunk (top_nat TYPE('k) - e) k" "i = chunk (top_nat TYPE('k) - e) k'"
    using assms(2,3) by (auto simp add: slot_at_def)
  from mem_inv_pos [OF inv pa] have le: "e \<le> top_nat TYPE('k)" by blast
  have "agree (Suc e) k k'"
    using ag i le by (auto simp add: agree_Suc intro: agree_trans agree_sym)
  then show ?thesis using d by simp
qed

lemma slot_at_depth:
  assumes inv: "mem_inv (m::'k::len tree_mem) pos" and "slot_at pos p d k"
  shows "d \<le> top_nat TYPE('k) + 1"
proof (cases p)
  case Root
  then show ?thesis using assms by (simp add: slot_at_def)
next
  case (Child a i)
  then obtain e kp where d: "d = Suc e" and pa: "pos a = Some (e, kp)"
    using assms(2) by (auto simp add: slot_at_def)
  from mem_inv_pos [OF inv pa] have le: "e \<le> top_nat TYPE('k)" by blast
  then show ?thesis using d by simp
qed

lemma slot_at_mono: "slot_at pos p d k \<Longrightarrow> pos \<subseteq>\<^sub>m pos' \<Longrightarrow> slot_at pos' p d k"
  apply (cases p)
   apply (auto simp add: slot_at_def map_le_def dom_def)
  done

lemma elem_ok_mono:
  "elem_ok m pos d k x \<Longrightarrow> pos \<subseteq>\<^sub>m pos' \<Longrightarrow> objs m' = objs m \<Longrightarrow> elem_ok m' pos' d k x"
  apply (auto simp add: elem_ok_def map_le_def dom_def split: if_splits)
  done

lemma not_isNode_default [simp]: "\<not> isNode RadixElement_default"
  by (simp add: isNode_iff RadixElement_default_def DISCRIMINANT_def bit_1_iff)

lemma not_isNode_leaf [simp]: "\<not> isNode (RadixElement_leaf v)"
  by (simp add: isNode_iff bit0_leaf)

lemma getLeaf_leaf: "\<not> bit v 0 \<Longrightarrow> getLeaf (RadixElement_leaf v) = Inr v"
  by (simp add: getLeaf_def isLeaf_iff bit0_leaf leaf_roundtrip)

lemma isNode_node [simp]: "isNode (RadixElement_node a) \<longleftrightarrow> \<not> bit a 0"
  by (simp add: isNode_iff RadixElement_node_def)

lemma getLeaf_not_node: "\<not> isNode x \<Longrightarrow> getLeaf x = Inr (x AND NOT DISCRIMINANT)"
  by (simp add: getLeaf_def isLeaf_def isNode_def)

lemma getLeaf_zero_iff: "\<not> isNode x \<Longrightarrow> getLeaf x = Inr 0 \<longleftrightarrow> x = RadixElement_default"
  using upper_zero [of x] by (simp add: getLeaf_not_node isNode_iff)

lemma leaf_neq_default: "v \<noteq> 0 \<Longrightarrow> \<not> bit v 0 \<Longrightarrow> RadixElement_leaf v \<noteq> RadixElement_default"
  using getLeaf_leaf [of v] getLeaf_zero_iff [of "RadixElement_leaf v"] by auto

lemma mem_invD_objs: "mem_inv m pos \<Longrightarrow> objs m l = Some k \<Longrightarrow> l \<noteq> 0 \<and> \<not> bit l 0"
  unfolding mem_inv_def by (elim conjE allE [of _ l] allE [of _ k]) simp

lemma mem_invD_free:
  "mem_inv m pos \<Longrightarrow> a \<in> set (free_nodes m) \<Longrightarrow> nodes m a = None \<and> a \<noteq> 0 \<and> \<not> bit a 0"
  unfolding mem_inv_def by (elim conjE) (drule (1) bspec, simp)

lemma mem_invD_distinct: "mem_inv m pos \<Longrightarrow> distinct (free_nodes m)"
  unfolding mem_inv_def by simp

lemma mem_invD_root: "mem_inv m pos \<Longrightarrow> root_ok m pos (root m)"
  unfolding mem_inv_def by simp

lemma mem_invD_bits: "mem_inv (m::'k::len tree_mem) pos \<Longrightarrow> LENGTH('k) \<le> 2 ^ 32"
  unfolding mem_inv_def by simp

lemma mem_invI:
  assumes "LENGTH('k) \<le> 2 ^ 32"
    and "root_ok (m::'k::len tree_mem) pos (root m)"
    and "\<And>a cs. nodes m a = Some cs \<Longrightarrow> length cs = CHILD_PER_LEVEL"
    and "\<And>a d kp. pos a = Some (d, kp) \<Longrightarrow> d \<le> top_nat TYPE('k) \<and>
         (\<exists>cs. nodes m a = Some cs \<and> (\<forall>i<CHILD_PER_LEVEL. slot_ok m pos d kp i (cs ! i)))"
    and "distinct (free_nodes m)"
    and "\<And>a. a \<in> set (free_nodes m) \<Longrightarrow> nodes m a = None \<and> a \<noteq> 0 \<and> \<not> bit a 0"
    and "\<And>l k. objs m l = Some k \<Longrightarrow> l \<noteq> 0 \<and> \<not> bit l 0"
  shows "mem_inv m pos"
  unfolding mem_inv_def using assms by blast

lemma slot_ok_mono:
  "slot_ok m pos d kp i x \<Longrightarrow> pos \<subseteq>\<^sub>m pos' \<Longrightarrow> objs m' = objs m \<Longrightarrow> slot_ok m' pos' d kp i x"
  by (auto simp add: slot_ok_def map_le_def dom_def split: if_splits)

lemma root_ok_mono:
  "root_ok m pos x \<Longrightarrow> pos \<subseteq>\<^sub>m pos' \<Longrightarrow> objs m' = objs m \<Longrightarrow> root_ok m' pos' x"
  by (auto simp add: root_ok_def map_le_def dom_def split: if_splits)

lemma slot_ok_default [simp]: "slot_ok m pos d kp i RadixElement_default"
  by (simp add: slot_ok_def)

text \<open>A store of an element that fits the position of the slot.\<close>

lemma mem_inv_store:
  assumes inv: "mem_inv (m::'k::len tree_mem) pos"
    and r: "p = Root \<Longrightarrow> root_ok m pos y"
    and c: "\<And>a i d kp. p = Child a i \<Longrightarrow> pos a = Some (d, kp) \<Longrightarrow> slot_ok m pos d kp i y"
  shows "mem_inv (store m p y) pos"
proof (rule mem_invI)
  show "LENGTH('k) \<le> 2 ^ 32" using inv by (rule mem_invD_bits)
  show "root_ok (store m p y) pos (root (store m p y))"
  proof (cases p)
    case Root
    then show ?thesis using r by (auto simp add: root_store intro: root_ok_mono)
  next
    case (Child a i)
    then show ?thesis using mem_invD_root [OF inv] by (auto simp add: root_store intro: root_ok_mono)
  qed
  show "length cs = CHILD_PER_LEVEL" if "nodes (store m p y) a = Some cs" for a cs
    using that mem_invD_len [OF inv]
    by (auto simp add: nodes_store split: slot_ptr.splits if_splits)
  show "d \<le> top_nat TYPE('k) \<and>
         (\<exists>cs. nodes (store m p y) a = Some cs \<and> (\<forall>i<CHILD_PER_LEVEL. slot_ok (store m p y) pos d kp i (cs ! i)))"
    if pa: "pos a = Some (d, kp)" for a d kp
  proof -
    from mem_inv_pos [OF inv pa] obtain cs where le: "d \<le> top_nat TYPE('k)"
      and cs: "nodes m a = Some cs" and len: "length cs = CHILD_PER_LEVEL"
      and ok: "\<And>j. j < CHILD_PER_LEVEL \<Longrightarrow> slot_ok m pos d kp j (cs ! j)" by blast
    show ?thesis
    proof (cases "\<exists>i. p = Child a i")
      case True
      then obtain i where p: "p = Child a i" by blast
      have n: "nodes (store m p y) a = Some (cs[i := y])"
        using p cs by (simp add: nodes_store)
      have "slot_ok (store m p y) pos d kp j (cs[i := y] ! j)" if j: "j < CHILD_PER_LEVEL" for j
      proof (cases "j = i")
        case True
        then show ?thesis using c [OF p pa] j len by (auto intro: slot_ok_mono)
      next
        case False
        then show ?thesis using ok [OF j] by (auto intro: slot_ok_mono)
      qed
      then show ?thesis using le n by blast
    next
      case False
      then have n: "nodes (store m p y) a = Some cs"
        using cs by (auto simp add: nodes_store split: slot_ptr.splits)
      have "slot_ok (store m p y) pos d kp j (cs ! j)" if j: "j < CHILD_PER_LEVEL" for j
        using ok [OF j] by (auto intro: slot_ok_mono)
      then show ?thesis using le n by blast
    qed
  qed
  show "distinct (free_nodes (store m p y))" using mem_invD_distinct [OF inv] by simp
  show "nodes (store m p y) a = None \<and> a \<noteq> 0 \<and> \<not> bit a 0" if "a \<in> set (free_nodes (store m p y))" for a
    using that mem_invD_free [OF inv, of a] by simp
  show "l \<noteq> 0 \<and> \<not> bit l 0" if "objs (store m p y) l = Some k" for l k
    using that mem_invD_objs [OF inv, of l k] by simp
qed

lemma mem_inv_extend_pos:
  assumes inv: "mem_inv (m::'k::len tree_mem) pos"
    and fresh: "pos a = None"
    and n: "nodes m a = Some n"
    and d: "d \<le> top_nat TYPE('k)"
    and ok: "\<And>i. i < CHILD_PER_LEVEL \<Longrightarrow> slot_ok m (pos(a \<mapsto> (d, k))) d k i (n ! i)"
  shows "mem_inv m (pos(a \<mapsto> (d, k)))"
proof (rule mem_invI)
  have le: "pos \<subseteq>\<^sub>m pos(a \<mapsto> (d, k))" using fresh by (auto simp add: map_le_def)
  show "LENGTH('k) \<le> 2 ^ 32" using inv by (rule mem_invD_bits)
  show "root_ok m (pos(a \<mapsto> (d, k))) (root m)"
    using mem_invD_root [OF inv] le by (rule root_ok_mono) simp
  show "length cs = CHILD_PER_LEVEL" if "nodes m b = Some cs" for b cs
    using that mem_invD_len [OF inv] by blast
  show "d' \<le> top_nat TYPE('k) \<and>
         (\<exists>cs. nodes m b = Some cs \<and> (\<forall>i<CHILD_PER_LEVEL. slot_ok m (pos(a \<mapsto> (d, k))) d' kp i (cs ! i)))"
    if pb: "(pos(a \<mapsto> (d, k))) b = Some (d', kp)" for b d' kp
  proof (cases "b = a")
    case True
    then show ?thesis using pb n d ok by auto
  next
    case False
    then have "pos b = Some (d', kp)" using pb by simp
    from mem_inv_pos [OF inv this] obtain cs where le': "d' \<le> top_nat TYPE('k)"
      and cs: "nodes m b = Some cs"
      and ok': "\<And>j. j < CHILD_PER_LEVEL \<Longrightarrow> slot_ok m pos d' kp j (cs ! j)" by blast
    have "slot_ok m (pos(a \<mapsto> (d, k))) d' kp j (cs ! j)" if j: "j < CHILD_PER_LEVEL" for j
      using ok' [OF j] le by (rule slot_ok_mono) simp
    then show ?thesis using le' cs by blast
  qed
  show "distinct (free_nodes m)" using mem_invD_distinct [OF inv] .
  show "nodes m b = None \<and> b \<noteq> 0 \<and> \<not> bit b 0" if "b \<in> set (free_nodes m)" for b
    using that mem_invD_free [OF inv, of b] by simp
  show "l \<noteq> 0 \<and> \<not> bit l 0" if "objs m l = Some k'" for l k'
    using that mem_invD_objs [OF inv, of l k'] by simp
qed

lemma mem_inv_pos_allocated: "mem_inv m pos \<Longrightarrow> nodes m a = None \<Longrightarrow> pos a = None"
proof (rule ccontr)
  assume inv: "mem_inv m pos" and n: "nodes m a = None" and "pos a \<noteq> None"
  then obtain d kp where "pos a = Some (d, kp)" by auto
  from mem_inv_pos [OF inv this] n show False by auto
qed

lemma mem_inv_alloc:
  assumes inv: "mem_inv (m::'k::len tree_mem) pos"
    and fr: "free_nodes m = a # rest"
    and len: "length n = CHILD_PER_LEVEL"
  shows "mem_inv (m\<lparr>nodes := (nodes m)(a \<mapsto> n), free_nodes := rest\<rparr>) pos"
proof (rule mem_invI)
  let ?m = "m\<lparr>nodes := (nodes m)(a \<mapsto> n), free_nodes := rest\<rparr>"
  have a: "nodes m a = None" "a \<notin> set rest" "distinct rest"
    using mem_invD_free [OF inv, of a] mem_invD_distinct [OF inv] fr by auto
  have pa: "pos a = None" using inv a(1) by (rule mem_inv_pos_allocated)
  show "LENGTH('k) \<le> 2 ^ 32" using inv by (rule mem_invD_bits)
  show "root_ok ?m pos (root ?m)"
    using mem_invD_root [OF inv] by (auto intro: root_ok_mono)
  show "length cs = CHILD_PER_LEVEL" if "nodes ?m b = Some cs" for b cs
    using that mem_invD_len [OF inv, of b cs] len by (auto split: if_splits)
  show "d \<le> top_nat TYPE('k) \<and>
         (\<exists>cs. nodes ?m b = Some cs \<and> (\<forall>i<CHILD_PER_LEVEL. slot_ok ?m pos d kp i (cs ! i)))"
    if pb: "pos b = Some (d, kp)" for b d kp
  proof -
    have ne: "b \<noteq> a" using pb pa by auto
    from mem_inv_pos [OF inv pb] obtain cs where le': "d \<le> top_nat TYPE('k)"
      and cs: "nodes m b = Some cs"
      and ok': "\<And>j. j < CHILD_PER_LEVEL \<Longrightarrow> slot_ok m pos d kp j (cs ! j)" by blast
    have "slot_ok ?m pos d kp j (cs ! j)" if j: "j < CHILD_PER_LEVEL" for j
      using ok' [OF j] by (auto intro: slot_ok_mono)
    then show ?thesis using le' cs ne by auto
  qed
  show "distinct (free_nodes ?m)" using a by simp
  show "nodes ?m b = None \<and> b \<noteq> 0 \<and> \<not> bit b 0" if "b \<in> set (free_nodes ?m)" for b
    using that mem_invD_free [OF inv, of b] a fr by auto
  show "l \<noteq> 0 \<and> \<not> bit l 0" if "objs ?m l = Some k'" for l k'
    using that mem_invD_objs [OF inv, of l k'] by simp
qed

lemma mem_inv_free:
  assumes inv: "mem_inv (m::'k::len tree_mem) pos"
    and pa: "pos a = None" and n: "nodes m a = Some n" and a0: "a \<noteq> 0" "\<not> bit a 0"
  shows "mem_inv (m\<lparr>nodes := (nodes m)(a := None), free_nodes := a # free_nodes m\<rparr>) pos"
proof (rule mem_invI)
  let ?m = "m\<lparr>nodes := (nodes m)(a := None), free_nodes := a # free_nodes m\<rparr>"
  have nf: "a \<notin> set (free_nodes m)" using mem_invD_free [OF inv, of a] n by auto
  show "LENGTH('k) \<le> 2 ^ 32" using inv by (rule mem_invD_bits)
  show "root_ok ?m pos (root ?m)"
    using mem_invD_root [OF inv] by (auto intro: root_ok_mono)
  show "length cs = CHILD_PER_LEVEL" if "nodes ?m b = Some cs" for b cs
    using that mem_invD_len [OF inv, of b cs] by (auto split: if_splits)
  show "d \<le> top_nat TYPE('k) \<and>
         (\<exists>cs. nodes ?m b = Some cs \<and> (\<forall>i<CHILD_PER_LEVEL. slot_ok ?m pos d kp i (cs ! i)))"
    if pb: "pos b = Some (d, kp)" for b d kp
  proof -
    have ne: "b \<noteq> a" using pb pa by auto
    from mem_inv_pos [OF inv pb] obtain cs where le': "d \<le> top_nat TYPE('k)"
      and cs: "nodes m b = Some cs"
      and ok': "\<And>j. j < CHILD_PER_LEVEL \<Longrightarrow> slot_ok m pos d kp j (cs ! j)" by blast
    have "slot_ok ?m pos d kp j (cs ! j)" if j: "j < CHILD_PER_LEVEL" for j
      using ok' [OF j] by (auto intro: slot_ok_mono)
    then show ?thesis using le' cs ne by auto
  qed
  show "distinct (free_nodes ?m)" using nf mem_invD_distinct [OF inv] by simp
  show "nodes ?m b = None \<and> b \<noteq> 0 \<and> \<not> bit b 0" if "b \<in> set (free_nodes ?m)" for b
    using that mem_invD_free [OF inv, of b] a0 by auto
  show "l \<noteq> 0 \<and> \<not> bit l 0" if "objs ?m l = Some k'" for l k'
    using that mem_invD_objs [OF inv, of l k'] by simp
qed

section \<open>The way of a key\<close>

lemma elem_ok_node:
  assumes "elem_ok (m::'k::len tree_mem) pos d k x" and "isNode x"
  obtains kp where "d \<le> top_nat TYPE('k)" and "pos x = Some (d, kp)" and "agree d kp k"
  using assms by (auto simp add: elem_ok_def)

lemma elem_ok_leaf:
  assumes "elem_ok (m::'k::len tree_mem) pos d k x" and "\<not> isNode x" and "x \<noteq> RadixElement_default"
  obtains l k' where "getLeaf x = Inr l" and "objs m l = Some k'" and "agree d k' k"
  using assms by (auto simp add: elem_ok_def)

lemma slot_at_Child:
  "pos a = Some (d, kp) \<Longrightarrow> agree d kp k
   \<Longrightarrow> slot_at pos (Child a (chunk (top_nat TYPE('k) - d) k)) (Suc d) (k::'k::len word)"
  by (auto simp add: slot_at_def intro: agree_sym)

lemma path_slot_at:
  assumes inv: "mem_inv (m::'k::len tree_mem) pos"
  shows "path_slot m k d = Some p \<Longrightarrow> slot_at pos p d k"
proof (induction d arbitrary: p)
  case 0
  then show ?case by (simp add: slot_at_def)
next
  case (Suc d)
  from Suc.prems obtain q x where q: "path_slot m k d = Some q" and ld: "load m q = Inr x"
    and nd: "isNode x" and p: "p = Child x (chunk (top_nat TYPE('k) - d) k)"
    by (auto split: option.splits sum.splits if_splits)
  from Suc.IH [OF q] have at: "slot_at pos q d k" .
  from slot_at_load [OF inv at] ld have "elem_ok m pos d k x" by auto
  from elem_ok_node [OF this nd] obtain kp where "pos x = Some (d, kp)" and "agree d kp k" by blast
  then show ?case unfolding p by (rule slot_at_Child)
qed

lemma path_stable:
  assumes nk: "nodes_kept (m::'k::len tree_mem) m'"
  shows "path_slot m k d = Some p \<Longrightarrow> path_slot m' k d = Some p"
proof (induction d arbitrary: p)
  case 0
  then show ?case by simp
next
  case (Suc d)
  from Suc.prems obtain q x where q: "path_slot m k d = Some q" and ld: "load m q = Inr x"
    and nd: "isNode x" and p: "p = Child x (chunk (top_nat TYPE('k) - d) k)"
    by (auto split: option.splits sum.splits if_splits)
  from Suc.IH [OF q] have q': "path_slot m' k d = Some q" .
  from nk ld nd have "load m' q = Inr x" by (auto simp add: nodes_kept_def)
  then show ?case using q' nd p by simp
qed

lemma child_index_level_at:
  assumes "LENGTH('k::len) \<le> 2 ^ 32" and "d \<le> top_nat TYPE('k)"
  shows "child_index (level_at TYPE('k) d) (k::'k word) = Inr (chunk (top_nat TYPE('k) - d) k)"
proof -
  have u: "unat (level_at TYPE('k) d) = top_nat TYPE('k) - d"
    using assms by (rule unat_level_at)
  have "(top_nat TYPE('k) - d) * 4 \<le> top_nat TYPE('k) * 4" by simp
  also have "\<dots> \<le> LENGTH('k) - 1" unfolding top_nat_eq by presburger
  also have "\<dots> < LENGTH('k)" by simp
  finally have "unat (level_at TYPE('k) d) * 4 < max 32 LENGTH('k)" using u by simp
  from child_index_eq [OF this assms(1)] show ?thesis
    by (simp add: u chunk_def BITS_def)
qed

section \<open>The steps of insert keep the invariant\<close>

lemma nodes_kept_refl [simp]: "nodes_kept m m"
  by (simp add: nodes_kept_def)

lemma nodes_kept_trans: "nodes_kept m m' \<Longrightarrow> nodes_kept m' m'' \<Longrightarrow> nodes_kept m m''"
  by (simp add: nodes_kept_def)

lemma nodes_kept_store:
  "load m p = Inr x0 \<Longrightarrow> \<not> isNode x0 \<Longrightarrow> nodes_kept m (store m p y)"
  unfolding nodes_kept_def
proof (intro allI impI)
  fix q x
  assume a: "load m p = Inr x0" "\<not> isNode x0" "load m q = Inr x" "isNode x"
  then have "q \<noteq> p" by auto
  then show "load (store m p y) q = Inr x" using a by (simp add: load_store_other)
qed

lemma load_alloc:
  "nodes m a = None \<Longrightarrow> load m q = Inr x
   \<Longrightarrow> load (m\<lparr>nodes := (nodes m)(a \<mapsto> n), free_nodes := fs\<rparr>) q = Inr x"
  by (cases q) (auto simp add: load_def split: option.splits if_splits)

lemma nodes_kept_alloc:
  "nodes m a = None \<Longrightarrow> nodes_kept m (m\<lparr>nodes := (nodes m)(a \<mapsto> n), free_nodes := fs\<rparr>)"
  unfolding nodes_kept_def by (auto intro: load_alloc)

lemma load_free:
  "load m q = Inr x \<Longrightarrow> (\<And>i. q \<noteq> Child a i)
   \<Longrightarrow> load (m\<lparr>nodes := (nodes m)(a := None), free_nodes := fs\<rparr>) q = Inr x"
  by (cases q) (auto simp add: load_def split: option.splits if_splits)

lemma nodes_kept_free:
  assumes "nodes m a = Some n" and "\<And>i. i < length n \<Longrightarrow> \<not> isNode (n ! i)"
  shows "nodes_kept m (m\<lparr>nodes := (nodes m)(a := None), free_nodes := fs\<rparr>)"
  unfolding nodes_kept_def
proof (intro allI impI)
  fix q x
  assume a: "load m q = Inr x" "isNode x"
  have "q \<noteq> Child a i" for i
    using a assms by (auto simp add: load_def split: if_splits)
  with a(1) show "load (m\<lparr>nodes := (nodes m)(a := None), free_nodes := fs\<rparr>) q = Inr x"
    by (rule load_free)
qed

lemma RadixNode_new_level_at:
  assumes "LENGTH('k::len) \<le> 2 ^ 32" and "d \<le> top_nat TYPE('k)"
  shows "RadixNode_new (level_at TYPE('k) d) (k::'k word) x
     = Inr ((replicate CHILD_PER_LEVEL RadixElement_default)[chunk (top_nat TYPE('k) - d) k := x])"
  by (simp add: RadixNode_new_def child_index_level_at [OF assms])

lemma new_node_nth:
  "i < CHILD_PER_LEVEL \<Longrightarrow>
   (replicate CHILD_PER_LEVEL RadixElement_default)[j := x] ! i = (if i = j then x else RadixElement_default)"
  by (cases "i = j") simp_all

lemma thr_atD:
  assumes "thr_at (m::'k::len tree_mem) pos t d"
  shows "objs m (ivalue t) = Some (ikey t)" and "path_slot m (ikey t) d = Some (ieptr t)"
    and "ilevel t = level_at TYPE('k) d"
  using assms by (simp_all add: thr_at_def)

lemma thr_at_slot:
  "mem_inv m pos \<Longrightarrow> thr_at m pos t d \<Longrightarrow> slot_at pos (ieptr t) d (ikey t)"
  using path_slot_at [of m pos "ikey t" d "ieptr t"] by (simp add: thr_at_def)

lemma thr_at_e_ok:
  "thr_at m pos t d \<Longrightarrow> ipc t \<in> {PWhile, PNode, PLeaf, PCas} \<Longrightarrow> e_ok m pos t d"
  by (auto simp add: thr_at_def)

lemma step_PLoad:
  assumes inv: "mem_inv (m::'k::len tree_mem) pos" and at: "thr_at m pos t d" and pc: "ipc t = PLoad"
  shows "\<exists>x. load m (ieptr t) = Inr x \<and> insert_step m t = Inr (m, t\<lparr>ie := x, ipc := PWhile\<rparr>)
    \<and> thr_at m pos (t\<lparr>ie := x, ipc := PWhile\<rparr>) d"
proof -
  from slot_at_load [OF inv thr_at_slot [OF inv at]]
  obtain x where ld: "load m (ieptr t) = Inr x" and ok: "elem_ok m pos d (ikey t) x" by blast
  have "insert_step m t = Inr (m, t\<lparr>ie := x, ipc := PWhile\<rparr>)"
    using pc ld by (simp add: insert_step_def)
  moreover have "thr_at m pos (t\<lparr>ie := x, ipc := PWhile\<rparr>) d"
    using at ld ok by (simp add: thr_at_def e_ok_def)
  ultimately show ?thesis using ld by blast
qed

lemma step_descend:
  assumes inv: "mem_inv (m::'k::len tree_mem) pos" and at: "thr_at m pos t d"
    and pc: "ipc t = PWhile \<or> ipc t = PNode" and nd: "isNode (ie t)"
  shows "\<exists>x. d \<le> top_nat TYPE('k)
    \<and> load m (Child (ie t) (chunk (top_nat TYPE('k) - d) (ikey t))) = Inr x
    \<and> insert_step m t = Inr (m, t\<lparr>ieptr := Child (ie t) (chunk (top_nat TYPE('k) - d) (ikey t)),
         ilevel := level_at TYPE('k) (Suc d), ie := x, ipc := PWhile\<rparr>)
    \<and> thr_at m pos (t\<lparr>ieptr := Child (ie t) (chunk (top_nat TYPE('k) - d) (ikey t)),
         ilevel := level_at TYPE('k) (Suc d), ie := x, ipc := PWhile\<rparr>) (Suc d)"
proof -
  let ?p = "Child (ie t) (chunk (top_nat TYPE('k) - d) (ikey t))"
  have eo: "e_ok m pos t d" using at pc by (auto intro: thr_at_e_ok)
  then have el: "elem_ok m pos d (ikey t) (ie t)" and cur: "load m (ieptr t) = Inr (ie t)"
    using nd by (simp_all add: e_ok_def)
  from elem_ok_node [OF el nd] obtain kp where le: "d \<le> top_nat TYPE('k)"
    and pe: "pos (ie t) = Some (d, kp)" and ag: "agree d kp (ikey t)" by blast
  have ps: "path_slot m (ikey t) (Suc d) = Some ?p"
    using thr_atD(2) [OF at] cur nd by simp
  from slot_at_load [OF inv path_slot_at [OF inv ps]]
  obtain x where ld: "load m ?p = Inr x" and ok: "elem_ok m pos (Suc d) (ikey t) x" by blast
  let ?t = "t\<lparr>ieptr := ?p, ilevel := level_at TYPE('k) (Suc d), ie := x, ipc := PWhile\<rparr>"
  have ci: "child_index (ilevel t) (ikey t) = Inr (chunk (top_nat TYPE('k) - d) (ikey t))"
    using child_index_level_at [OF mem_invD_bits [OF inv] le] thr_atD(3) [OF at] by simp
  have "descend m t = Inr (m, ?t)"
    using nd ci ld thr_atD(3) [OF at]
    by (simp add: descend_def getNode_def RadixNode_get_def level_at_Suc)
  then have st: "insert_step m t = Inr (m, ?t)"
    using pc nd by (auto simp add: insert_step_def)
  have "thr_at m pos ?t (Suc d)"
    using at ps ld ok by (simp add: thr_at_def e_ok_def)
  with st ld le show ?thesis by blast
qed

lemma e_ok_not_node: "\<not> isNode (ie t) \<Longrightarrow> e_ok m pos t d = elem_ok m pos d (ikey t) (ie t)"
  by (simp add: e_ok_def)

lemma step_while_leaf:
  assumes at: "thr_at (m::'k::len tree_mem) pos t d"
    and pc: "ipc t = PWhile" and nd: "\<not> isNode (ie t)" and ne: "ie t \<noteq> RadixElement_default"
  shows "insert_step m t = Inr (m, t\<lparr>ipc := PLeaf\<rparr>) \<and> thr_at m pos (t\<lparr>ipc := PLeaf\<rparr>) d"
proof -
  have "getLeaf (ie t) \<noteq> Inr 0" using nd ne by (simp add: getLeaf_zero_iff)
  then have "insert_step m t = Inr (m, t\<lparr>ipc := PLeaf\<rparr>)"
    using pc nd by (simp add: insert_step_def getLeaf_not_node)
  moreover have "thr_at m pos (t\<lparr>ipc := PLeaf\<rparr>) d"
    using at pc nd ne by (simp add: thr_at_def e_ok_def)
  ultimately show ?thesis by blast
qed

lemma leaf_slot_ok:
  assumes inv: "mem_inv (m::'k::len tree_mem) pos" and ob: "objs m v = Some k"
    and pa: "pos a = Some (d, kp)" and ag: "agree d k kp"
  shows "slot_ok m pos d kp (chunk (top_nat TYPE('k) - d) k) (RadixElement_leaf v)"
proof -
  have "\<not> bit v 0" using mem_invD_objs [OF inv ob] by simp
  then have "getLeaf (RadixElement_leaf v) = Inr v" by (rule getLeaf_leaf)
  then show ?thesis using ob ag by (auto simp add: slot_ok_def)
qed

lemma mem_inv_store_leaf:
  assumes inv: "mem_inv (m::'k::len tree_mem) pos" and at: "slot_at pos p d k"
    and ob: "objs m v = Some k"
  shows "mem_inv (store m p (RadixElement_leaf v)) pos"
proof (rule mem_inv_store [OF inv])
  have gl: "getLeaf (RadixElement_leaf v) = Inr v"
    using mem_invD_objs [OF inv ob] by (simp add: getLeaf_leaf)
  show "root_ok m pos (RadixElement_leaf v)"
    using gl ob by (auto simp add: root_ok_def)
  show "slot_ok m pos d' kp i (RadixElement_leaf v)"
    if "p = Child a i" and pa: "pos a = Some (d', kp)" for a i d' kp
    using that at leaf_slot_ok [OF inv ob pa] by (auto simp add: slot_at_def)
qed

lemma step_cas1_ok:
  assumes inv: "mem_inv (m::'k::len tree_mem) pos" and at: "thr_at m pos t d"
    and pc: "ipc t = PWhile" and e: "ie t = RadixElement_default"
    and cur: "load m (ieptr t) = Inr RadixElement_default"
  shows "insert_step m t = Inr (store m (ieptr t) (RadixElement_leaf (ivalue t)), t\<lparr>ipc := PRet True\<rparr>)
    \<and> mem_inv (store m (ieptr t) (RadixElement_leaf (ivalue t))) pos
    \<and> nodes_kept m (store m (ieptr t) (RadixElement_leaf (ivalue t)))"
proof -
  have "getLeaf (ie t) = Inr 0" using e by (simp add: getLeaf_zero_iff)
  then have "insert_step m t = Inr (store m (ieptr t) (RadixElement_leaf (ivalue t)), t\<lparr>ipc := PRet True\<rparr>)"
    using pc e cur by (simp add: insert_step_def compare_exchange_strong_def)
  moreover have "mem_inv (store m (ieptr t) (RadixElement_leaf (ivalue t))) pos"
    using inv thr_at_slot [OF inv at] thr_atD(1) [OF at] by (rule mem_inv_store_leaf)
  moreover have "nodes_kept m (store m (ieptr t) (RadixElement_leaf (ivalue t)))"
    using cur by (rule nodes_kept_store) simp
  ultimately show ?thesis by blast
qed

lemma step_cas1_fail:
  assumes inv: "mem_inv (m::'k::len tree_mem) pos" and at: "thr_at m pos t d"
    and pc: "ipc t = PWhile" and e: "ie t = RadixElement_default"
    and cur: "load m (ieptr t) = Inr x" and ne: "x \<noteq> RadixElement_default"
  shows "insert_step m t = Inr (m, t\<lparr>ie := x, ipc := (if isNode x then PNode else PLeaf)\<rparr>)
    \<and> thr_at m pos (t\<lparr>ie := x, ipc := (if isNode x then PNode else PLeaf)\<rparr>) d"
proof -
  have "getLeaf (ie t) = Inr 0" using e by (simp add: getLeaf_zero_iff)
  then have "insert_step m t = Inr (m, t\<lparr>ie := x, ipc := (if isNode x then PNode else PLeaf)\<rparr>)"
    using pc e cur ne by (simp add: insert_step_def compare_exchange_strong_def)
  moreover from slot_at_load [OF inv thr_at_slot [OF inv at]] cur
  have "elem_ok m pos d (ikey t) x" by auto
  then have "thr_at m pos (t\<lparr>ie := x, ipc := (if isNode x then PNode else PLeaf)\<rparr>) d"
    using at cur ne by (simp add: thr_at_def e_ok_def)
  ultimately show ?thesis by blast
qed

lemma thr_at_leaf:
  assumes at: "thr_at (m::'k::len tree_mem) pos t d" and pc: "ipc t = PLeaf \<or> ipc t = PCas"
  obtains l leafKey where "\<not> isNode (ie t)" and "ie t \<noteq> RadixElement_default"
    and "getLeaf (ie t) = Inr l" and "objs m l = Some leafKey" and "agree d leafKey (ikey t)"
proof -
  have a: "\<not> isNode (ie t)" "ie t \<noteq> RadixElement_default" "elem_ok m pos d (ikey t) (ie t)"
    using at pc by (auto simp add: thr_at_def e_ok_def)
  from elem_ok_leaf [OF a(3) a(1) a(2)] a that show thesis by blast
qed

lemma step_leaf_same:
  assumes at: "thr_at (m::'k::len tree_mem) pos t d" and pc: "ipc t = PLeaf"
    and gl: "getLeaf (ie t) = Inr l" and ob: "objs m l = Some (ikey t)"
  shows "insert_step m t = Inr (m, t\<lparr>ipc := PRet False\<rparr>)"
  using pc gl ob by (simp add: insert_step_def)

lemma differ_depth:
  assumes "agree d leafKey (k::'k::len word)" and "leafKey \<noteq> k"
  shows "d \<le> top_nat TYPE('k)"
  using assms agree_full [of d leafKey k] by (cases "d \<le> top_nat TYPE('k)") auto

lemma step_leaf_oom:
  assumes inv: "mem_inv (m::'k::len tree_mem) pos" and at: "thr_at m pos t d" and pc: "ipc t = PLeaf"
    and gl: "getLeaf (ie t) = Inr l" and ob: "objs m l = Some leafKey" and ne: "leafKey \<noteq> ikey t"
    and fr: "free_nodes m = []"
  shows "insert_step m t = Inl BadAlloc"
  using pc gl ob ne [symmetric] fr by (simp add: insert_step_def)

lemma step_leaf_alloc:
  assumes inv: "mem_inv (m::'k::len tree_mem) pos" and at: "thr_at m pos t d" and pc: "ipc t = PLeaf"
    and gl: "getLeaf (ie t) = Inr l" and ob: "objs m l = Some leafKey" and ne: "leafKey \<noteq> ikey t"
    and fr: "free_nodes m = a # rest"
    and n: "n = (replicate CHILD_PER_LEVEL RadixElement_default)[chunk (top_nat TYPE('k) - d) leafKey := ie t]"
    and m': "m' = m\<lparr>nodes := (nodes m)(a \<mapsto> n), free_nodes := rest\<rparr>"
  shows "insert_step m t = Inr (m', t\<lparr>inewChild := a, ipc := PCas\<rparr>)
    \<and> mem_inv m' pos \<and> thr_at m' pos (t\<lparr>inewChild := a, ipc := PCas\<rparr>) d
    \<and> nodes_kept m m' \<and> nodes m a = None \<and> d \<le> top_nat TYPE('k)"
proof -
  from thr_at_leaf [OF at] pc obtain l' leafKey' where
    nd: "\<not> isNode (ie t)" and nde: "ie t \<noteq> RadixElement_default"
    and gl': "getLeaf (ie t) = Inr l'" and ob': "objs m l' = Some leafKey'"
    and ag': "agree d leafKey' (ikey t)" by blast
  have "l' = l" using gl gl' by simp
  then have "leafKey' = leafKey" using ob ob' by simp
  then have ag: "agree d leafKey (ikey t)" using ag' by simp
  have le: "d \<le> top_nat TYPE('k)" using ag ne by (rule differ_depth)
  have rn: "RadixNode_new (ilevel t) leafKey (ie t) = Inr n"
    using RadixNode_new_level_at [OF mem_invD_bits [OF inv] le] thr_atD(3) [OF at] n by simp
  have st: "insert_step m t = Inr (m', t\<lparr>inewChild := a, ipc := PCas\<rparr>)"
    using pc gl ob ne [symmetric] fr rn m' by (simp add: insert_step_def)
  have a: "nodes m a = None" "a \<noteq> 0" "\<not> bit a 0"
    using mem_invD_free [OF inv, of a] fr by auto
  have pa: "pos a = None" using inv a(1) by (rule mem_inv_pos_allocated)
  have len: "length n = CHILD_PER_LEVEL" using n by simp
  have inv': "mem_inv m' pos" unfolding m' using inv fr len by (rule mem_inv_alloc)
  have nk: "nodes_kept m m'" unfolding m' using a(1) by (rule nodes_kept_alloc)
  have ps: "path_slot m' (ikey t) d = Some (ieptr t)"
    using nk thr_atD(2) [OF at] by (rule path_stable)
  have obs: "objs m' = objs m" by (simp add: m')
  have "elem_ok m pos d (ikey t) (ie t)"
    using at pc by (simp add: thr_at_def e_ok_def)
  then have el: "elem_ok m' pos d (ikey t) (ie t)"
    using map_le_refl obs by (rule elem_ok_mono)
  have pn: "priv_node m' pos (t\<lparr>inewChild := a, ipc := PCas\<rparr>)"
    using gl ob ne rn a pa by (auto simp add: priv_node_def m')
  have "thr_at m' pos (t\<lparr>inewChild := a, ipc := PCas\<rparr>) d"
    using at ps el nd nde pn by (simp add: thr_at_def e_ok_def obs)
  with st inv' nk a(1) le show ?thesis by blast
qed

lemma thr_at_priv:
  assumes inv: "mem_inv (m::'k::len tree_mem) pos" and at: "thr_at m pos t d" and pc: "ipc t = PCas"
  obtains l leafKey where "\<not> isNode (ie t)" and "ie t \<noteq> RadixElement_default"
    and "getLeaf (ie t) = Inr l" and "objs m l = Some leafKey" and "agree d leafKey (ikey t)"
    and "leafKey \<noteq> ikey t" and "d \<le> top_nat TYPE('k)"
    and "nodes m (inewChild t)
          = Some ((replicate CHILD_PER_LEVEL RadixElement_default)[chunk (top_nat TYPE('k) - d) leafKey := ie t])"
    and "pos (inewChild t) = None" and "inewChild t \<noteq> 0" and "\<not> bit (inewChild t) 0"
proof -
  from thr_at_leaf [OF at] pc obtain l leafKey where
    a: "\<not> isNode (ie t)" "ie t \<noteq> RadixElement_default" "getLeaf (ie t) = Inr l"
      "objs m l = Some leafKey" "agree d leafKey (ikey t)" by blast
  have "priv_node m pos t" using at pc by (simp add: thr_at_def)
  then obtain n where b: "leafKey \<noteq> ikey t" "RadixNode_new (ilevel t) leafKey (ie t) = Inr n"
    "nodes m (inewChild t) = Some n" "pos (inewChild t) = None" "inewChild t \<noteq> 0"
    "\<not> bit (inewChild t) 0"
    using a(3,4) by (auto simp add: priv_node_def)
  have le: "d \<le> top_nat TYPE('k)" using a(5) b(1) by (rule differ_depth)
  have "n = (replicate CHILD_PER_LEVEL RadixElement_default)[chunk (top_nat TYPE('k) - d) leafKey := ie t]"
    using RadixNode_new_level_at [OF mem_invD_bits [OF inv] le, of leafKey "ie t"]
      thr_atD(3) [OF at] b(2) by simp
  with a b le that show thesis by blast
qed

lemma step_cas2_ok:
  assumes inv: "mem_inv (m::'k::len tree_mem) pos" and at: "thr_at m pos t d" and pc: "ipc t = PCas"
    and cur: "load m (ieptr t) = Inr (ie t)"
    and m': "m' = store m (ieptr t) (RadixElement_node (inewChild t))"
    and pos': "pos' = pos(inewChild t \<mapsto> (d, ikey t))"
  shows "insert_step m t = Inr (m', t\<lparr>inewChild := 0, ipc := PLoad\<rparr>)
    \<and> mem_inv m' pos' \<and> thr_at m' pos' (t\<lparr>inewChild := 0, ipc := PLoad\<rparr>) d
    \<and> nodes_kept m m' \<and> pos \<subseteq>\<^sub>m pos'"
proof -
  let ?a = "inewChild t"
  from thr_at_priv [OF inv at pc] obtain l leafKey where
    nd: "\<not> isNode (ie t)" and gl: "getLeaf (ie t) = Inr l" and ob: "objs m l = Some leafKey"
    and ag: "agree d leafKey (ikey t)" and le: "d \<le> top_nat TYPE('k)"
    and n: "nodes m ?a
          = Some ((replicate CHILD_PER_LEVEL RadixElement_default)[chunk (top_nat TYPE('k) - d) leafKey := ie t])"
    and pa: "pos ?a = None" and a0: "\<not> bit ?a 0" by blast
  have st: "insert_step m t = Inr (m', t\<lparr>inewChild := 0, ipc := PLoad\<rparr>)"
    using pc cur m' by (simp add: insert_step_def compare_exchange_strong_def)
  have sub: "pos \<subseteq>\<^sub>m pos'" using pa by (auto simp add: pos' map_le_def)
  have sat: "slot_at pos (ieptr t) d (ikey t)" using inv at by (rule thr_at_slot)
  have inv1: "mem_inv m pos'" unfolding pos'
  proof (rule mem_inv_extend_pos [OF inv pa n le])
    fix i assume i: "i < CHILD_PER_LEVEL"
    show "slot_ok m (pos(?a \<mapsto> (d, ikey t))) d (ikey t) i
        ((replicate CHILD_PER_LEVEL RadixElement_default)[chunk (top_nat TYPE('k) - d) leafKey := ie t] ! i)"
      using i nd gl ob ag by (auto simp add: new_node_nth slot_ok_def simp del: CHILD_PER_LEVEL_16)
  qed
  have inv': "mem_inv m' pos'" unfolding m'
  proof (rule mem_inv_store [OF inv1])
    assume "ieptr t = Root"
    then have "d = 0" using sat by (simp add: slot_at_def)
    then show "root_ok m pos' (RadixElement_node ?a)"
      using a0 by (simp add: root_ok_def pos') (simp add: RadixElement_node_def)
  next
    fix b i d' kp assume p: "ieptr t = Child b i" and pb: "pos' b = Some (d', kp)"
    from sat p obtain d0 kp0 where d: "d = Suc d0" and pb0: "pos b = Some (d0, kp0)"
      and ag0: "agree d0 (ikey t) kp0" and i: "i = chunk (top_nat TYPE('k) - d0) (ikey t)"
      by (auto simp add: slot_at_def)
    have "b \<noteq> ?a" using pb0 pa by auto
    then have e: "d' = d0" "kp = kp0" using pb pb0 by (simp_all add: pos')
    show "slot_ok m pos' d' kp i (RadixElement_node ?a)"
      using a0 le d ag0 i e by (simp add: slot_ok_def pos') (simp add: RadixElement_node_def)
  qed
  have nk: "nodes_kept m m'" unfolding m' using cur nd by (rule nodes_kept_store)
  have ps: "path_slot m' (ikey t) d = Some (ieptr t)"
    using nk thr_atD(2) [OF at] by (rule path_stable)
  have "thr_at m' pos' (t\<lparr>inewChild := 0, ipc := PLoad\<rparr>) d"
    using at ps by (simp add: thr_at_def m')
  with st inv' nk sub show ?thesis by blast
qed

lemma step_cas2_fail:
  assumes inv: "mem_inv (m::'k::len tree_mem) pos" and at: "thr_at m pos t d" and pc: "ipc t = PCas"
    and cur: "load m (ieptr t) = Inr x" and ne: "x \<noteq> ie t"
    and m': "m' = m\<lparr>nodes := (nodes m)(inewChild t := None), free_nodes := inewChild t # free_nodes m\<rparr>"
  shows "insert_step m t = Inr (m', t\<lparr>ie := x, inewChild := 0, ipc := PLoad\<rparr>)
    \<and> mem_inv m' pos \<and> thr_at m' pos (t\<lparr>ie := x, inewChild := 0, ipc := PLoad\<rparr>) d
    \<and> nodes_kept m m'"
proof -
  let ?a = "inewChild t"
  from thr_at_priv [OF inv at pc] obtain l leafKey where
    nd: "\<not> isNode (ie t)" and "getLeaf (ie t) = Inr l" and "objs m l = Some leafKey"
    and n: "nodes m ?a
          = Some ((replicate CHILD_PER_LEVEL RadixElement_default)[chunk (top_nat TYPE('k) - d) leafKey := ie t])"
    and pa: "pos ?a = None" and a0: "?a \<noteq> 0" "\<not> bit ?a 0" by blast
  have st: "insert_step m t = Inr (m', t\<lparr>ie := x, inewChild := 0, ipc := PLoad\<rparr>)"
    using pc cur ne m' by (simp add: insert_step_def compare_exchange_strong_def)
  have inv': "mem_inv m' pos" unfolding m' using inv pa n a0 by (rule mem_inv_free)
  have nk: "nodes_kept m m'" unfolding m'
  proof (rule nodes_kept_free [OF n])
    fix i
    assume "i < length ((replicate CHILD_PER_LEVEL RadixElement_default)[chunk (top_nat TYPE('k) - d) leafKey := ie t])"
    then have "i < CHILD_PER_LEVEL" by simp
    then show "\<not> isNode ((replicate CHILD_PER_LEVEL RadixElement_default)[chunk (top_nat TYPE('k) - d) leafKey := ie t] ! i)"
      using nd by (simp add: new_node_nth del: CHILD_PER_LEVEL_16)
  qed
  have ps: "path_slot m' (ikey t) d = Some (ieptr t)"
    using nk thr_atD(2) [OF at] by (rule path_stable)
  have "thr_at m' pos (t\<lparr>ie := x, inewChild := 0, ipc := PLoad\<rparr>) d"
    using at ps by (simp add: thr_at_def m')
  with st inv' nk show ?thesis by blast
qed

section \<open>Lookup\<close>

lemma path_slot_Suc:
  "path_slot m k d = Some p \<Longrightarrow> load m p = Inr x \<Longrightarrow> isNode x
   \<Longrightarrow> path_slot m k (Suc d) = Some (Child x (chunk (top_nat TYPE('k) - d) k))"
  for m :: "'k::len tree_mem"
  by simp

lemma path_slot_SucE:
  assumes "path_slot (m::'k::len tree_mem) k (Suc d) = Some p"
  obtains q x where "path_slot m k d = Some q" and "load m q = Inr x" and "isNode x"
    and "p = Child x (chunk (top_nat TYPE('k) - d) k)"
  using assms by (auto split: option.splits sum.splits if_splits)

lemma get_run_ret: "gpc t = GRet r \<Longrightarrow> get_run m t = Some (Inr r)"
  by (subst get_run.simps) simp

lemma get_run_step:
  "(\<And>r. gpc t \<noteq> GRet r) \<Longrightarrow> get_step m t = Inr t' \<Longrightarrow> get_run m t = get_run m t'"
  by (subst get_run.simps) (auto split: get_pc.splits)

lemma get_run_fault:
  "(\<And>r. gpc t \<noteq> GRet r) \<Longrightarrow> get_step m t = Inl f \<Longrightarrow> get_run m t = Some (Inl f)"
  by (subst get_run.simps) (auto split: get_pc.splits)

lemma get_ops_ret: "gpc t = GRet r \<Longrightarrow> get_run_ops c m t = Some (Inr (t, c))"
  by (subst get_run_ops.simps) simp

lemma get_ops_step:
  "(\<And>r. gpc t \<noteq> GRet r) \<Longrightarrow> get_step m t = Inr t' \<Longrightarrow> get_loads t = j \<Longrightarrow> c + j = c'
   \<Longrightarrow> get_run_ops c m t = get_run_ops c' m t'"
  by (subst get_run_ops.simps) (auto split: get_pc.splits)

lemma get_ops_run:
  assumes "get_run_ops c m t = Some r"
  shows "get_run m t = Some (strip_get r)"
proof (rule get_run_ops.raw_induct [where P = "\<lambda>c m t r. get_run m t = Some (strip_get r)", OF _ assms])
  fix f :: "nat \<Rightarrow> 'a tree_mem \<Rightarrow> 'a get_thread \<Rightarrow> (fault + ('a get_thread \<times> nat)) option"
    and c m t r
  assume IH: "\<And>c m t y. f c m t = Some y \<Longrightarrow> get_run m t = Some (strip_get y)"
  assume eq: "(case gpc t of
        GRet r \<Rightarrow> Some (Inr (t, c))
      | _ \<Rightarrow>
          (case get_step m t of
             Inl f \<Rightarrow> Some (Inl f)
           | Inr t' \<Rightarrow> f (c + get_loads t) m t')) = Some r"
  show "get_run m t = Some (strip_get r)"
  proof (cases "\<exists>b. gpc t = GRet b")
    case True
    then obtain b where b: "gpc t = GRet b" by blast
    then have "r = Inr (t, c)" using eq by simp
    then show ?thesis using b by (simp add: get_run_ret strip_get_def get_ret_def)
  next
    case False
    then have nr: "\<And>b. gpc t \<noteq> GRet b" by blast
    show ?thesis
    proof (cases "get_step m t")
      case (Inl e)
      then have "r = Inl e" using eq nr by (auto split: get_pc.splits)
      then show ?thesis using get_run_fault [OF nr Inl] by (simp add: strip_get_def)
    next
      case (Inr t')
      have "f (c + get_loads t) m t' = Some r"
        using eq nr Inr by (auto split: get_pc.splits)
      then have "get_run m t' = Some (strip_get r)" by (rule IH)
      then show ?thesis
        using get_run_step [OF nr Inr] by simp
    qed
  qed
qed

lemma get_ops_path:
  assumes inv: "mem_inv (m::'k::len tree_mem) pos"
  shows "path_slot m k d = Some p \<Longrightarrow> load m p = Inr x
    \<Longrightarrow> get_run_ops (Suc d) m \<lparr>gkey = k, glevel = level_at TYPE('k) d, ge = x, gpc = GWhile\<rparr>
        = RadixTree_get_ops m k"
proof (induction d arbitrary: p x)
  case 0
  then have x: "x = root m" by (simp add: load_def)
  have "get_step m (get_begin k) = Inr \<lparr>gkey = k, glevel = level_at TYPE('k) 0, ge = x, gpc = GWhile\<rparr>"
    by (simp add: get_step_def get_begin_def level_at_0 x)
  then have "get_run_ops 0 m (get_begin k)
      = get_run_ops (Suc 0) m \<lparr>gkey = k, glevel = level_at TYPE('k) 0, ge = x, gpc = GWhile\<rparr>"
    by (rule get_ops_step [rotated]) (simp_all add: get_begin_def get_loads_def)
  then show ?case by (simp add: RadixTree_get_ops_def)
next
  case (Suc d)
  from path_slot_SucE [OF Suc.prems(1)] obtain q y where q: "path_slot m k d = Some q"
    and ly: "load m q = Inr y" and ny: "isNode y"
    and p: "p = Child y (chunk (top_nat TYPE('k) - d) k)" by blast
  from slot_at_load [OF inv path_slot_at [OF inv q]] ly have "elem_ok m pos d k y" by auto
  from elem_ok_node [OF this ny] have le: "d \<le> top_nat TYPE('k)" by blast
  let ?t = "\<lparr>gkey = k, glevel = level_at TYPE('k) d, ge = y, gpc = GWhile\<rparr>"
  have ci: "child_index (level_at TYPE('k) d) k = Inr (chunk (top_nat TYPE('k) - d) k)"
    using mem_invD_bits [OF inv] le by (rule child_index_level_at)
  have "get_step m ?t = Inr \<lparr>gkey = k, glevel = level_at TYPE('k) (Suc d), ge = x, gpc = GWhile\<rparr>"
    using ny ci Suc.prems(2) p
    by (simp add: get_step_def getNode_def RadixNode_get_def level_at_Suc)
  then have "get_run_ops (Suc d) m ?t
      = get_run_ops (Suc (Suc d)) m \<lparr>gkey = k, glevel = level_at TYPE('k) (Suc d), ge = x, gpc = GWhile\<rparr>"
    by (rule get_ops_step [rotated]) (simp_all add: get_loads_def ny)
  then show ?case using Suc.IH [OF q ly] by simp
qed

lemma objs_null: "mem_inv m pos \<Longrightarrow> objs m 0 = None"
  using mem_invD_objs [of m pos 0] by (cases "objs m 0") auto

lemma get_ops_at_end:
  assumes inv: "mem_inv (m::'k::len tree_mem) pos" and pe: "path_end m k d p x"
  shows "RadixTree_get_ops m k
    = Some (Inr (\<lparr>gkey = k, glevel = level_at TYPE('k) d, ge = x, gpc = GRet (leaf_result m k x)\<rparr>, Suc d))"
proof -
  from pe have ps: "path_slot m k d = Some p" and ld: "load m p = Inr x" and nd: "\<not> isNode x"
    by (simp_all add: path_end_def)
  let ?t = "\<lparr>gkey = k, glevel = level_at TYPE('k) d, ge = x, gpc = GWhile\<rparr>"
  let ?t' = "\<lparr>gkey = k, glevel = level_at TYPE('k) d, ge = x, gpc = GRet (leaf_result m k x)\<rparr>"
  from slot_at_load [OF inv path_slot_at [OF inv ps]] ld have el: "elem_ok m pos d k x" by auto
  have gl: "getLeaf x = Inr (x AND NOT DISCRIMINANT)" using nd by (rule getLeaf_not_node)
  have "get_step m ?t = Inr ?t'"
  proof (cases "x = RadixElement_default")
    case True
    then have "getLeaf x = Inr 0" using nd by (simp add: getLeaf_zero_iff)
    then show ?thesis using nd objs_null [OF inv] by (simp add: get_step_def leaf_result_def)
  next
    case False
    from elem_ok_leaf [OF el nd False] obtain l k' where l: "getLeaf x = Inr l"
      and ob: "objs m l = Some k'" by blast
    have "l \<noteq> 0" using mem_invD_objs [OF inv ob] by simp
    then show ?thesis using nd l ob by (simp add: get_step_def leaf_result_def)
  qed
  then have "get_run_ops (Suc d) m ?t = get_run_ops (Suc d) m ?t'"
    by (rule get_ops_step [rotated]) (simp_all add: get_loads_def nd)
  also have "\<dots> = Some (Inr (?t', Suc d))" by (rule get_ops_ret) simp
  finally show ?thesis using get_ops_path [OF inv ps ld] by simp
qed

lemma RadixTree_get_ops_run:
  "RadixTree_get_ops m k = Some r \<Longrightarrow> RadixTree_get m k = Some (strip_get r)"
  unfolding RadixTree_get_ops_def RadixTree_get_def by (rule get_ops_run)

lemma get_at_end:
  assumes inv: "mem_inv (m::'k::len tree_mem) pos" and pe: "path_end m k d p x"
  shows "RadixTree_get m k = Some (Inr (leaf_result m k x))"
  using RadixTree_get_ops_run [OF get_ops_at_end [OF inv pe]]
  by (simp add: strip_get_def get_ret_def)

lemma path_end_from:
  assumes inv: "mem_inv (m::'k::len tree_mem) pos"
  shows "top_nat TYPE('k) + 1 - d = n \<Longrightarrow> path_slot m k d = Some p
    \<Longrightarrow> \<exists>d' p' x'. d \<le> d' \<and> path_end m k d' p' x'"
proof (induction n arbitrary: d p)
  case 0
  from slot_at_load [OF inv path_slot_at [OF inv 0(2)]]
  obtain x where ld: "load m p = Inr x" and el: "elem_ok m pos d k x" by blast
  have "\<not> isNode x"
  proof
    assume "isNode x"
    from elem_ok_node [OF el this] have "d \<le> top_nat TYPE('k)" by blast
    with 0(1) show False by simp
  qed
  then have "path_end m k d p x" using 0(2) ld by (simp add: path_end_def)
  then show ?case by blast
next
  case (Suc n)
  from slot_at_load [OF inv path_slot_at [OF inv Suc.prems(2)]]
  obtain x where ld: "load m p = Inr x" and el: "elem_ok m pos d k x" by blast
  show ?case
  proof (cases "isNode x")
    case True
    have "top_nat TYPE('k) + 1 - Suc d = n" using Suc.prems(1) by simp
    from Suc.IH [OF this path_slot_Suc [OF Suc.prems(2) ld True]]
    obtain d' p' x' where "Suc d \<le> d'" and "path_end m k d' p' x'" by blast
    then have "d \<le> d' \<and> path_end m k d' p' x'" by simp
    then show ?thesis by blast
  next
    case False
    then have "path_end m k d p x" using Suc.prems(2) ld by (simp add: path_end_def)
    then show ?thesis by blast
  qed
qed

lemma path_end_exists:
  assumes inv: "mem_inv (m::'k::len tree_mem) pos"
  shows "\<exists>d p x. path_end m k d p x"
proof -
  have "path_slot m k 0 = Some Root" by simp
  from path_end_from [OF inv refl this] show ?thesis by blast
qed


lemma get_eq_by_end:
  assumes "mem_inv (m::'k::len tree_mem) pos" and "mem_inv m' pos'"
    and "path_end m k d p x" and "path_end m' k d' p' x'"
    and "leaf_result m' k x' = leaf_result m k x"
  shows "RadixTree_get m' k = RadixTree_get m k"
  using get_at_end [OF assms(1,3)] get_at_end [OF assms(2,4)] assms(5) by simp

lemma leaf_result_cong: "objs m' = objs m \<Longrightarrow> leaf_result m' k x = leaf_result m k x"
  unfolding leaf_result_def by (rule arg_cong [where f = "\<lambda>f. case_sum (\<lambda>f. 0) (\<lambda>l. case f l of None \<Rightarrow> 0 | Some k' \<Rightarrow> if k' = k then l else 0) (getLeaf x)"])

lemma get_unchanged:
  assumes inv: "mem_inv (m::'k::len tree_mem) pos" and inv': "mem_inv m' pos'"
    and nk: "nodes_kept m m'" and ob: "objs m' = objs m"
    and same: "\<And>d p x. path_end m k d p x \<Longrightarrow> load m' p = Inr x"
  shows "RadixTree_get m' k = RadixTree_get m k"
proof -
  from path_end_exists [OF inv] obtain d p x where pe: "path_end m k d p x" by blast
  then have "path_end m' k d p x"
    using path_stable [OF nk, of k d p] same [OF pe] by (simp add: path_end_def)
  with inv inv' pe show ?thesis
    by (rule get_eq_by_end) (simp add: leaf_result_cong [OF ob])
qed

section \<open>The effect of a step on lookup\<close>

lemma leaf_result_default: "mem_inv m pos \<Longrightarrow> leaf_result m k RadixElement_default = 0"
proof -
  assume inv: "mem_inv m pos"
  have "getLeaf RadixElement_default = Inr 0" by (simp add: getLeaf_zero_iff)
  then show ?thesis using objs_null [OF inv] by (simp add: leaf_result_def)
qed

lemma leaf_result_leaf:
  assumes inv: "mem_inv m pos" and ob: "objs m v = Some k"
  shows "leaf_result m k' (RadixElement_leaf v) = (if k' = k then v else 0)"
proof -
  have "getLeaf (RadixElement_leaf v) = Inr v"
    using mem_invD_objs [OF inv ob] by (simp add: getLeaf_leaf)
  then show ?thesis using ob by (auto simp add: leaf_result_def)
qed

lemma get_store_leaf:
  assumes inv: "mem_inv (m::'k::len tree_mem) pos" and ps: "path_slot m k d = Some p"
    and cur: "load m p = Inr RadixElement_default" and ob: "objs m v = Some k"
  shows "RadixTree_get m k = Some (Inr 0)"
    and "RadixTree_get (store m p (RadixElement_leaf v)) k'
          = (if k' = k then Some (Inr v) else RadixTree_get m k')"
proof -
  let ?m = "store m p (RadixElement_leaf v)"
  have pe: "path_end m k d p RadixElement_default" using ps cur by (simp add: path_end_def)
  from get_at_end [OF inv pe] show "RadixTree_get m k = Some (Inr 0)"
    by (simp add: leaf_result_default [OF inv])
  have inv': "mem_inv ?m pos"
    using inv path_slot_at [OF inv ps] ob by (rule mem_inv_store_leaf)
  have nk: "nodes_kept m ?m" using cur by (rule nodes_kept_store) simp
  have ld: "load ?m p = Inr (RadixElement_leaf v)" using cur by (rule load_store_same)
  have ob': "objs ?m v = Some k" using ob by simp
  show "RadixTree_get ?m k' = (if k' = k then Some (Inr v) else RadixTree_get m k')"
  proof (cases "k' = k")
    case True
    have "path_end ?m k d p (RadixElement_leaf v)"
      using path_stable [OF nk ps] ld by (simp add: path_end_def)
    from get_at_end [OF inv' this] show ?thesis
      using True by (simp add: leaf_result_leaf [OF inv' ob'])
  next
    case False
    from path_end_exists [OF inv] obtain d' p' x' where pe': "path_end m k' d' p' x'" by blast
    then have ps': "path_slot ?m k' d' = Some p'"
      using path_stable [OF nk, of k' d' p'] by (simp add: path_end_def)
    show ?thesis
    proof (cases "p' = p")
      case True
      then have x': "x' = RadixElement_default" using pe' cur by (simp add: path_end_def)
      have "path_end ?m k' d' p' (RadixElement_leaf v)"
        using ps' ld True by (simp add: path_end_def)
      from get_at_end [OF inv' this] get_at_end [OF inv pe'] show ?thesis
        using False x' by (simp add: leaf_result_leaf [OF inv' ob'] leaf_result_default [OF inv])
    next
      case ne: False
      then have "load ?m p' = Inr x'" using pe' by (simp add: load_store_other path_end_def)
      then have "path_end ?m k' d' p' x'" using ps' pe' by (simp add: path_end_def)
      moreover have "leaf_result ?m k' x' = leaf_result m k' x'"
        by (rule leaf_result_cong) simp
      ultimately show ?thesis
        using get_eq_by_end [OF inv inv' pe'] False by simp
    qed
  qed
qed

lemma get_alloc:
  assumes inv: "mem_inv (m::'k::len tree_mem) pos" and inv': "mem_inv m' pos"
    and a: "nodes m a = None" and m': "m' = m\<lparr>nodes := (nodes m)(a \<mapsto> n), free_nodes := fs\<rparr>"
  shows "RadixTree_get m' k = RadixTree_get m k"
proof (rule get_unchanged [OF inv inv'])
  show "nodes_kept m m'" unfolding m' using a by (rule nodes_kept_alloc)
  show "objs m' = objs m" by (simp add: m')
  show "load m' p = Inr x" if "path_end m k d p x" for d p x
  proof -
    from that have "load m p = Inr x" by (simp add: path_end_def)
    with a show ?thesis unfolding m' by (rule load_alloc)
  qed
qed

lemma slot_at_not_fresh: "slot_at pos p d k \<Longrightarrow> pos a = None \<Longrightarrow> p \<noteq> Child a i"
  by (auto simp add: slot_at_def)

lemma get_free:
  assumes inv: "mem_inv (m::'k::len tree_mem) pos" and inv': "mem_inv m' pos"
    and pa: "pos a = None" and nk: "nodes_kept m m'"
    and m': "m' = m\<lparr>nodes := (nodes m)(a := None), free_nodes := fs\<rparr>"
  shows "RadixTree_get m' k = RadixTree_get m k"
proof (rule get_unchanged [OF inv inv' nk])
  show "objs m' = objs m" by (simp add: m')
  show "load m' p = Inr x" if pe: "path_end m k d p x" for d p x
  proof -
    from pe have ps: "path_slot m k d = Some p" and ld: "load m p = Inr x"
      by (simp_all add: path_end_def)
    have "slot_at pos p d k" using inv ps by (rule path_slot_at)
    then have "p \<noteq> Child a i" for i using pa by (rule slot_at_not_fresh)
    with ld show ?thesis unfolding m' by (rule load_free)
  qed
qed

lemma get_publish:
  assumes inv: "mem_inv (m::'k::len tree_mem) pos" and inv': "mem_inv m' pos'"
    and ps: "path_slot m k d = Some p" and cur: "load m p = Inr x" and nd: "\<not> isNode x"
    and gl: "getLeaf x = Inr l" and ob: "objs m l = Some leafKey" and le: "d \<le> top_nat TYPE('k)"
    and n: "nodes m a
          = Some ((replicate CHILD_PER_LEVEL RadixElement_default)[chunk (top_nat TYPE('k) - d) leafKey := x])"
    and pa: "pos a = None" and a0: "\<not> bit a 0"
    and m': "m' = store m p (RadixElement_node a)"
  shows "RadixTree_get m' k' = RadixTree_get m k'"
proof -
  have nk: "nodes_kept m m'" unfolding m' using cur nd by (rule nodes_kept_store)
  have ld: "load m' p = Inr (RadixElement_node a)" unfolding m' using cur by (rule load_store_same)
  have ob': "objs m' = objs m" by (simp add: m')
  have sat: "slot_at pos p d k" using inv ps by (rule path_slot_at)
  from path_end_exists [OF inv] obtain d' p' x' where pe': "path_end m k' d' p' x'" by blast
  then have ps': "path_slot m' k' d' = Some p'" and ps0: "path_slot m k' d' = Some p'"
    using path_stable [OF nk, of k' d' p'] by (simp_all add: path_end_def)
  show ?thesis
  proof (cases "p' = p")
    case True
    have x': "x' = x" using pe' cur True by (simp add: path_end_def)
    have "slot_at pos p d' k'" using path_slot_at [OF inv ps0] True by simp
    from slot_at_unique [OF inv sat this] have dd: "d' = d" by simp
    let ?c = "chunk (top_nat TYPE('k) - d) k'"
    let ?q = "Child (RadixElement_node a) ?c"
    have "isNode (RadixElement_node a)" using a0 by simp
    with ps' ld have psq: "path_slot m' k' (Suc d) = Some ?q"
      unfolding dd True by (rule path_slot_Suc)
    have pne: "p \<noteq> Child a i" for i using sat pa by (rule slot_at_not_fresh)
    have "load m (Child a ?c) = Inr ((replicate CHILD_PER_LEVEL RadixElement_default)[chunk (top_nat TYPE('k) - d) leafKey := x] ! ?c)"
      using n by (simp add: load_def)
    moreover have "?q \<noteq> p" using pne [of ?c] by (auto simp add: RadixElement_node_def)
    then have "load m' ?q = load m ?q" unfolding m' by (rule load_store_other)
    ultimately have lq: "load m' ?q = Inr (if ?c = chunk (top_nat TYPE('k) - d) leafKey then x else RadixElement_default)"
      by (simp add: RadixElement_node_def)
    let ?y = "if ?c = chunk (top_nat TYPE('k) - d) leafKey then x else RadixElement_default"
    have "\<not> isNode ?y" using nd by simp
    then have pe2: "path_end m' k' (Suc d) ?q ?y" using psq lq by (simp add: path_end_def)
    have "leaf_result m' k' ?y = leaf_result m k' x"
    proof (cases "?c = chunk (top_nat TYPE('k) - d) leafKey")
      case True
      then show ?thesis by (simp add: leaf_result_cong [OF ob'])
    next
      case False
      then have "leafKey \<noteq> k'" by auto
      then have "leaf_result m k' x = 0" using gl ob by (simp add: leaf_result_def)
      then show ?thesis using False by (simp add: leaf_result_default [OF inv'])
    qed
    with get_eq_by_end [OF inv inv' pe' pe2] show ?thesis by (simp add: x')
  next
    case False
    then have "load m' p' = Inr x'" using pe' by (simp add: m' load_store_other path_end_def)
    then have "path_end m' k' d' p' x'" using ps' pe' by (simp add: path_end_def)
    from get_eq_by_end [OF inv inv' pe' this] show ?thesis
      by (simp add: leaf_result_cong [OF ob'])
  qed
qed

section \<open>Runs with a counter\<close>

lemma insert_run_ret: "ipc t = PRet b \<Longrightarrow> insert_run m t = Some (Inr (m, b))"
  by (subst insert_run.simps) simp

lemma insert_run_step:
  "(\<And>b. ipc t \<noteq> PRet b) \<Longrightarrow> insert_step m t = Inr (m', t') \<Longrightarrow> insert_run m t = insert_run m' t'"
  by (subst insert_run.simps) (auto split: ins_pc.splits)

lemma insert_run_fault:
  "(\<And>b. ipc t \<noteq> PRet b) \<Longrightarrow> insert_step m t = Inl f \<Longrightarrow> insert_run m t = Some (Inl f)"
  by (subst insert_run.simps) (auto split: ins_pc.splits)

lemma cost_ret: "ipc t = PRet b \<Longrightarrow> insert_run_cost cost c m t = Some (Inr (m, t, c))"
  by (subst insert_run_cost.simps) simp

lemma cost_step:
  "(\<And>b. ipc t \<noteq> PRet b) \<Longrightarrow> insert_step m t = Inr (m', t')
   \<Longrightarrow> insert_run_cost cost c m t = insert_run_cost cost (c + cost m t) m' t'"
  by (subst insert_run_cost.simps) (auto split: ins_pc.splits)

lemma cost_fault:
  "(\<And>b. ipc t \<noteq> PRet b) \<Longrightarrow> insert_step m t = Inl f \<Longrightarrow> insert_run_cost cost c m t = Some (Inl f)"
  by (subst insert_run_cost.simps) (auto split: ins_pc.splits)

lemma ops_ret: "ipc t = PRet b \<Longrightarrow> insert_run_ops c m t = Some (Inr (m, t, c))"
  unfolding insert_run_ops_def by (rule cost_ret)

lemma ops_step:
  "(\<And>b. ipc t \<noteq> PRet b) \<Longrightarrow> insert_step m t = Inr (m', t')
   \<Longrightarrow> insert_run_ops c m t = insert_run_ops (c + slot_ops m t) m' t'"
  unfolding insert_run_ops_def by (rule cost_step)

lemma ops_fault:
  "(\<And>b. ipc t \<noteq> PRet b) \<Longrightarrow> insert_step m t = Inl f \<Longrightarrow> insert_run_ops c m t = Some (Inl f)"
  unfolding insert_run_ops_def by (rule cost_fault)

lemma cost_run:
  assumes "insert_run_cost cost c m t = Some r"
  shows "insert_run m t = Some (strip_ops r)"
proof (rule insert_run_cost.raw_induct [where P = "\<lambda>cost c m t r. insert_run m t = Some (strip_ops r)", OF _ assms])
  fix f :: "('a tree_mem \<Rightarrow> 'a ins_thread \<Rightarrow> nat) \<Rightarrow> nat \<Rightarrow> 'a tree_mem \<Rightarrow> 'a ins_thread \<Rightarrow> (fault + ('a tree_mem \<times> 'a ins_thread \<times> nat)) option"
    and cost c m t r
  assume IH: "\<And>cost c m t y. f cost c m t = Some y \<Longrightarrow> insert_run m t = Some (strip_ops y)"
  assume eq: "(case ipc t of
        PRet b \<Rightarrow> Some (Inr (m, t, c))
      | _ \<Rightarrow>
          (case insert_step m t of
             Inl f \<Rightarrow> Some (Inl f)
           | Inr (m', t') \<Rightarrow> f cost (c + cost m t) m' t')) = Some r"
  show "insert_run m t = Some (strip_ops r)"
  proof (cases "\<exists>b. ipc t = PRet b")
    case True
    then obtain b where b: "ipc t = PRet b" by blast
    then have "r = Inr (m, t, c)" using eq by simp
    then show ?thesis using b by (simp add: insert_run_ret strip_ops_def ret_of_def)
  next
    case False
    then have nr: "\<And>b. ipc t \<noteq> PRet b" by blast
    show ?thesis
    proof (cases "insert_step m t")
      case (Inl e)
      then have "r = Inl e" using eq nr by (auto split: ins_pc.splits)
      then show ?thesis using insert_run_fault [OF nr Inl] by (simp add: strip_ops_def)
    next
      case (Inr mt)
      obtain m' t' where mt: "mt = (m', t')" by (cases mt)
      have "f cost (c + cost m t) m' t' = Some r"
        using eq nr Inr mt by (auto split: ins_pc.splits)
      then have "insert_run m' t' = Some (strip_ops r)" by (rule IH)
      then show ?thesis
        using insert_run_step [OF nr Inr [unfolded mt]] by simp
    qed
  qed
qed

lemma ops_run: "insert_run_ops c m t = Some r \<Longrightarrow> insert_run m t = Some (strip_ops r)"
  unfolding insert_run_ops_def by (rule cost_run)

section \<open>A call of insert that runs alone\<close>

lemma ins_postI:
  assumes "r = Inr (m', t', c')" and "ipc t' = PRet b" and "mem_inv m' pos'" and "objs m' = objs m"
    and "free_nodes m = used @ free_nodes m'" and "length used \<le> top_nat TYPE('k) + 1 - d"
    and "c' \<le> c + 4 * (top_nat TYPE('k) + 1 - d) + 1"
    and "d \<le> d'" and "d' \<le> top_nat TYPE('k) + 1" and "ilevel t' = level_at TYPE('k) d'"
    and "b = (RadixTree_get m k = Some (Inr 0))"
    and "\<not> b \<Longrightarrow> m' = m"
    and "\<And>k'. b \<Longrightarrow> RadixTree_get m' k' = (if k' = k then Some (Inr v) else RadixTree_get m k')"
  shows "ins_post (m::'k::len tree_mem) k v d c r"
proof -
  have 1: "\<exists>used. free_nodes m = used @ free_nodes m' \<and> length used \<le> top_nat TYPE('k) + 1 - d"
    using assms(5,6) by blast
  have 2: "\<exists>d'. d \<le> d' \<and> d' \<le> top_nat TYPE('k) + 1 \<and> ilevel t' = level_at TYPE('k) d'"
    using assms(8,9,10) by blast
  have 3: "\<not> b \<longrightarrow> m' = m" using assms(12) by blast
  have 4: "b \<longrightarrow> (\<forall>k'. RadixTree_get m' k' = (if k' = k then Some (Inr v) else RadixTree_get m k'))"
    using assms(13) by blast
  show ?thesis
    unfolding ins_post_def
    using assms(1,2,3,4) 1 assms(7) 2 assms(11) 3 4 by blast
qed

lemma ins_postE:
  assumes "ins_post (m::'k::len tree_mem) k v d c r" and "r \<noteq> Inl BadAlloc"
  obtains m' t' c' pos' b used d' where "r = Inr (m', t', c')" and "ipc t' = PRet b"
    and "mem_inv m' pos'" and "objs m' = objs m"
    and "free_nodes m = used @ free_nodes m'" and "length used \<le> top_nat TYPE('k) + 1 - d"
    and "c' \<le> c + 4 * (top_nat TYPE('k) + 1 - d) + 1"
    and "d \<le> d'" and "d' \<le> top_nat TYPE('k) + 1" and "ilevel t' = level_at TYPE('k) d'"
    and "b = (RadixTree_get m k = Some (Inr 0))"
    and "\<not> b \<Longrightarrow> m' = m"
    and "\<And>k'. b \<Longrightarrow> RadixTree_get m' k' = (if k' = k then Some (Inr v) else RadixTree_get m k')"
proof -
  from assms obtain m' t' c' pos' b where
    a: "r = Inr (m', t', c')" "ipc t' = PRet b" "mem_inv m' pos'" "objs m' = objs m"
    and u: "\<exists>used. free_nodes m = used @ free_nodes m' \<and> length used \<le> top_nat TYPE('k) + 1 - d"
    and c: "c' \<le> c + 4 * (top_nat TYPE('k) + 1 - d) + 1"
    and dd: "\<exists>d'. d \<le> d' \<and> d' \<le> top_nat TYPE('k) + 1 \<and> ilevel t' = level_at TYPE('k) d'"
    and b: "b = (RadixTree_get m k = Some (Inr 0))" "\<not> b \<longrightarrow> m' = m"
      "b \<longrightarrow> (\<forall>k'. RadixTree_get m' k' = (if k' = k then Some (Inr v) else RadixTree_get m k'))"
    unfolding ins_post_def by blast
  from u obtain used where u': "free_nodes m = used @ free_nodes m'"
    "length used \<le> top_nat TYPE('k) + 1 - d" by blast
  from dd obtain d' where d': "d \<le> d'" "d' \<le> top_nat TYPE('k) + 1" "ilevel t' = level_at TYPE('k) d'"
    by blast
  show thesis
    using that [OF a u' c d' b(1)] b(2,3) by blast
qed

lemma ins_post_shift:
  assumes post: "ins_post m2 k v (Suc d) (c + j) r" and le: "d \<le> top_nat TYPE('k)" and j: "j \<le> 4"
    and fr: "free_nodes m = us @ free_nodes m2" and us: "length us \<le> 1"
    and ob: "objs m2 = objs (m::'k::len tree_mem)"
    and get: "\<And>k'. RadixTree_get m2 k' = RadixTree_get m k'"
    and absent: "m2 \<noteq> m \<Longrightarrow> RadixTree_get m k = Some (Inr 0)"
  shows "ins_post m k v d c r"
proof (cases "r = Inl BadAlloc")
  case True
  have "length (free_nodes m2) < top_nat TYPE('k) + 1 - Suc d"
    using post unfolding ins_post_def True by simp
  then have "length (free_nodes m) < top_nat TYPE('k) + 1 - d" using fr us le by simp
  then show ?thesis using True by (simp add: ins_post_def)
next
  case False
  show ?thesis
  proof (rule ins_postE [OF post False])
    fix m' t' c' pos' b used d'
    assume r: "r = Inr (m', t', c')" and pc: "ipc t' = PRet b"
      and inv: "mem_inv m' pos'" and ob': "objs m' = objs m2"
      and u: "free_nodes m2 = used @ free_nodes m'" "length used \<le> top_nat TYPE('k) + 1 - Suc d"
      and c: "c' \<le> c + j + 4 * (top_nat TYPE('k) + 1 - Suc d) + 1"
      and d': "Suc d \<le> d'" "d' \<le> top_nat TYPE('k) + 1" "ilevel t' = level_at TYPE('k) d'"
      and b: "b = (RadixTree_get m2 k = Some (Inr 0))" and nb: "\<not> b \<Longrightarrow> m' = m2"
      and yb: "\<And>k'. b \<Longrightarrow> RadixTree_get m' k' = (if k' = k then Some (Inr v) else RadixTree_get m2 k')"
    show "ins_post m k v d c r"
    proof (rule ins_postI [OF r pc inv])
      show "objs m' = objs m" using ob' ob by simp
      show "free_nodes m = (us @ used) @ free_nodes m'" using fr u by simp
      show "length (us @ used) \<le> top_nat TYPE('k) + 1 - d" using us u(2) le by simp
      show "c' \<le> c + 4 * (top_nat TYPE('k) + 1 - d) + 1" using c j le by simp
      show "d \<le> d'" using d'(1) by simp
      show "d' \<le> top_nat TYPE('k) + 1" by fact
      show "ilevel t' = level_at TYPE('k) d'" by fact
      show 3: "b = (RadixTree_get m k = Some (Inr 0))" using b get by simp
      show "m' = m" if "\<not> b" using nb absent 3 that by auto
      show "RadixTree_get m' k' = (if k' = k then Some (Inr v) else RadixTree_get m k')" if b for k'
        using yb [OF that] get by simp
    qed
  qed
qed

lemma ops_step_n:
  "(\<And>b. ipc t \<noteq> PRet b) \<Longrightarrow> insert_step m t = Inr (m', t') \<Longrightarrow> slot_ops m t = j
   \<Longrightarrow> c + j = c' \<Longrightarrow> insert_run_ops c m t = insert_run_ops c' m' t'"
  using ops_step [of t m m' t' c] by simp

lemma run_while:
  fixes m :: "'k::len tree_mem"
  shows "top_nat TYPE('k) + 1 - d = n \<Longrightarrow> mem_inv m pos \<Longrightarrow> thr_at m pos t d \<Longrightarrow> ipc t = PWhile
    \<Longrightarrow> load m (ieptr t) = Inr (ie t)
    \<Longrightarrow> \<exists>r. insert_run_ops c m t = Some r \<and> ins_post m (ikey t) (ivalue t) d c r"
proof (induction n arbitrary: d m pos t c rule: less_induct)
  case (less n)
  note n = less.prems(1) and inv = less.prems(2) and at = less.prems(3) and pc = less.prems(4)
    and cur = less.prems(5)
  have descend_case: "\<exists>r. insert_run_ops c0 m0 t0 = Some r \<and> ins_post m0 (ikey t0) (ivalue t0) (Suc d) (c0 + 1) r"
    if inv0: "mem_inv m0 pos0" and at0: "thr_at m0 pos0 t0 d" and pc0: "ipc t0 = PWhile"
      and nd0: "isNode (ie t0)" for m0 :: "'k tree_mem" and pos0 t0 c0
  proof -
    from step_descend [OF inv0 at0 _ nd0] pc0 obtain x where le: "d \<le> top_nat TYPE('k)"
      and ld: "load m0 (Child (ie t0) (chunk (top_nat TYPE('k) - d) (ikey t0))) = Inr x"
      and st: "insert_step m0 t0 = Inr (m0, t0\<lparr>ieptr := Child (ie t0) (chunk (top_nat TYPE('k) - d) (ikey t0)),
         ilevel := level_at TYPE('k) (Suc d), ie := x, ipc := PWhile\<rparr>)"
      and at1: "thr_at m0 pos0 (t0\<lparr>ieptr := Child (ie t0) (chunk (top_nat TYPE('k) - d) (ikey t0)),
         ilevel := level_at TYPE('k) (Suc d), ie := x, ipc := PWhile\<rparr>) (Suc d)"
      by blast
    define t1 where "t1 = t0\<lparr>ieptr := Child (ie t0) (chunk (top_nat TYPE('k) - d) (ikey t0)),
         ilevel := level_at TYPE('k) (Suc d), ie := x, ipc := PWhile\<rparr>"
    have so: "slot_ops m0 t0 = 1" using pc0 nd0 by (simp add: slot_ops_def)
    have run: "insert_run_ops c0 m0 t0 = insert_run_ops (c0 + 1) m0 t1"
      by (rule ops_step_n [OF _ st [folded t1_def] so]) (simp_all add: pc0)
    have lt: "top_nat TYPE('k) + 1 - Suc d < n" using n le by simp
    have at1': "thr_at m0 pos0 t1 (Suc d)" using at1 by (simp add: t1_def)
    have p1: "ipc t1 = PWhile" by (simp add: t1_def)
    have c1: "load m0 (ieptr t1) = Inr (ie t1)" using ld by (simp add: t1_def)
    have "\<exists>r. insert_run_ops (c0 + 1) m0 t1 = Some r \<and> ins_post m0 (ikey t1) (ivalue t1) (Suc d) (c0 + 1) r"
      using lt refl inv0 at1' p1 c1 by (rule less.IH)
    then obtain r where r: "insert_run_ops (c0 + 1) m0 t1 = Some r"
      and post: "ins_post m0 (ikey t0) (ivalue t0) (Suc d) (c0 + 1) r"
      by (auto simp add: t1_def)
    with run r show ?thesis by simp
  qed
  have dtop: "d \<le> top_nat TYPE('k) + 1"
    using inv thr_at_slot [OF inv at] by (rule slot_at_depth)
  show ?case
  proof (cases "isNode (ie t)")
    case True
    from descend_case [OF inv at pc True] obtain r where
      r: "insert_run_ops c m t = Some r" and post: "ins_post m (ikey t) (ivalue t) (Suc d) (c + 1) r"
      by blast
    from elem_ok_node [of m pos d "ikey t" "ie t"] at pc True have le: "d \<le> top_nat TYPE('k)"
      by (auto simp add: thr_at_def e_ok_def)
    have "ins_post m (ikey t) (ivalue t) d c r"
      using post le by (rule ins_post_shift [where us = "[]"]) simp_all
    with r show ?thesis by simp
  next
    case nd: False
    show ?thesis
    proof (cases "ie t = RadixElement_default")
      case True
      let ?m = "store m (ieptr t) (RadixElement_leaf (ivalue t))"
      from step_cas1_ok [OF inv at pc True] cur True
      have st: "insert_step m t = Inr (?m, t\<lparr>ipc := PRet True\<rparr>)" and inv': "mem_inv ?m pos"
        by simp_all
      have "insert_run_ops c m t = insert_run_ops (c + slot_ops m t) ?m (t\<lparr>ipc := PRet True\<rparr>)"
        using st pc by (intro ops_step) simp_all
      moreover have "slot_ops m t = 1" using pc True by (simp add: slot_ops_def getLeaf_zero_iff)
      ultimately have run: "insert_run_ops c m t = Some (Inr (?m, t\<lparr>ipc := PRet True\<rparr>, c + 1))"
        using ops_ret [of "t\<lparr>ipc := PRet True\<rparr>" True "c + 1" ?m] by simp
      have c': "load m (ieptr t) = Inr RadixElement_default" using cur True by simp
      note g = get_store_leaf [OF inv thr_atD(2) [OF at] c' thr_atD(1) [OF at]]
      have "ins_post m (ikey t) (ivalue t) d c (Inr (?m, t\<lparr>ipc := PRet True\<rparr>, c + 1))"
      proof (rule ins_postI [OF refl _ inv', where b = True and used = "[]" and d' = d])
        show "RadixTree_get ?m k' = (if k' = ikey t then Some (Inr (ivalue t)) else RadixTree_get m k')" for k'
          by (rule g(2))
        show "ilevel (t\<lparr>ipc := PRet True\<rparr>) = level_at TYPE('k) d" using thr_atD(3) [OF at] by simp
      qed (use g(1) dtop in simp_all)
      with run show ?thesis by simp
    next
      case ne: False
      from step_while_leaf [OF at pc nd ne]
      have st1: "insert_step m t = Inr (m, t\<lparr>ipc := PLeaf\<rparr>)" and at1: "thr_at m pos (t\<lparr>ipc := PLeaf\<rparr>) d"
        by simp_all
      define t1 where "t1 = t\<lparr>ipc := PLeaf\<rparr>"
      have t1: "ipc t1 = PLeaf" "ikey t1 = ikey t" "ivalue t1 = ivalue t" "ie t1 = ie t" "ieptr t1 = ieptr t"
        "ilevel t1 = ilevel t"
        by (simp_all add: t1_def)
      have "getLeaf (ie t) \<noteq> Inr 0" using nd ne by (simp add: getLeaf_zero_iff)
      then have so1: "slot_ops m t = 0" using pc nd by (simp add: slot_ops_def)
      have run1: "insert_run_ops c m t = insert_run_ops c m t1"
        by (rule ops_step_n [OF _ st1 [folded t1_def] so1]) (simp_all add: pc)
      from thr_at_leaf [OF at1 [folded t1_def] disjI1 [OF t1(1)]] obtain l leafKey where
        gl1: "getLeaf (ie t1) = Inr l" and ob: "objs m l = Some leafKey"
        and ag1: "agree d leafKey (ikey t1)" by blast
      have gl: "getLeaf (ie t) = Inr l" and ag: "agree d leafKey (ikey t)"
        using gl1 ag1 by (simp_all add: t1)
      have pe: "path_end m (ikey t) d (ieptr t) (ie t)"
        using thr_atD(2) [OF at] cur nd by (simp add: path_end_def)
      have getm: "RadixTree_get m (ikey t) = Some (Inr (if leafKey = ikey t then l else 0))"
        using get_at_end [OF inv pe] gl ob by (simp add: leaf_result_def)
      have l0: "l \<noteq> 0" using mem_invD_objs [OF inv ob] by simp
      show ?thesis
      proof (cases "leafKey = ikey t")
        case True
        have ob2: "objs m l = Some (ikey t1)" using ob True by (simp add: t1)
        have "insert_step m t1 = Inr (m, t1\<lparr>ipc := PRet False\<rparr>)"
          using at1 [folded t1_def] t1(1) gl1 ob2 by (rule step_leaf_same)
        then have "insert_run_ops c m t1 = insert_run_ops (c + slot_ops m t1) m (t1\<lparr>ipc := PRet False\<rparr>)"
          using t1(1) by (intro ops_step) simp_all
        moreover have "slot_ops m t1 = 0" using t1(1) gl1 ob2 by (simp add: slot_ops_def)
        ultimately have run: "insert_run_ops c m t = Some (Inr (m, t1\<lparr>ipc := PRet False\<rparr>, c))"
          using run1 ops_ret [of "t1\<lparr>ipc := PRet False\<rparr>" False c m] by simp
        have "ins_post m (ikey t) (ivalue t) d c (Inr (m, t1\<lparr>ipc := PRet False\<rparr>, c))"
        proof (rule ins_postI [OF refl _ inv, where b = False and used = "[]" and d' = d])
          show "ilevel (t1\<lparr>ipc := PRet False\<rparr>) = level_at TYPE('k) d"
            using thr_atD(3) [OF at] by (simp add: t1)
          show "False = (RadixTree_get m (ikey t) = Some (Inr 0))" using getm True l0 by simp
        qed (use dtop in simp_all)
        with run show ?thesis by simp
      next
        case diff: False
        have le: "d \<le> top_nat TYPE('k)" using ag diff by (rule differ_depth)
        have absent: "RadixTree_get m (ikey t) = Some (Inr 0)" using getm diff by simp
        have diff1: "leafKey \<noteq> ikey t1" using diff by (simp add: t1)
        show ?thesis
        proof (cases "free_nodes m")
          case Nil
          have "insert_step m t1 = Inl BadAlloc"
            using inv at1 [folded t1_def] t1(1) gl1 ob diff1 Nil by (rule step_leaf_oom)
          then have "insert_run_ops c m t1 = Some (Inl BadAlloc)"
            using t1(1) by (intro ops_fault) simp_all
          moreover have "ins_post m (ikey t) (ivalue t) d c (Inl BadAlloc)"
            using Nil le by (simp add: ins_post_def)
          ultimately show ?thesis using run1 by simp
        next
          case (Cons a rest)
          define nn where "nn = (replicate CHILD_PER_LEVEL RadixElement_default)[chunk (top_nat TYPE('k) - d) leafKey := ie t]"
          define m1 where "m1 = m\<lparr>nodes := (nodes m)(a \<mapsto> nn), free_nodes := rest\<rparr>"
          define t2 where "t2 = t1\<lparr>inewChild := a, ipc := PCas\<rparr>"
          have t2: "ipc t2 = PCas" "ikey t2 = ikey t" "ivalue t2 = ivalue t" "ie t2 = ie t"
            "ieptr t2 = ieptr t" "inewChild t2 = a"
            by (simp_all add: t2_def t1_def)
          have s2: "insert_step m t1 = Inr (m1, t2) \<and> mem_inv m1 pos \<and> thr_at m1 pos t2 d
              \<and> nodes_kept m m1 \<and> nodes m a = None \<and> d \<le> top_nat TYPE('k)"
            unfolding t2_def
            by (rule step_leaf_alloc [OF inv at1 [folded t1_def] t1(1) gl1 ob _ Cons _ m1_def])
              (simp_all add: t1 diff nn_def)
          then have st2: "insert_step m t1 = Inr (m1, t2)" and inv1: "mem_inv m1 pos"
            and at2: "thr_at m1 pos t2 d" and fresh: "nodes m a = None" by simp_all
          have so2: "slot_ops m t1 = 1" using t1(1) gl1 ob diff1 by (auto simp add: slot_ops_def)
          have run2: "insert_run_ops c m t1 = insert_run_ops (c + 1) m1 t2"
            by (rule ops_step_n [OF _ st2 so2]) (simp_all add: t1(1))
          have cur1: "load m1 (ieptr t2) = Inr (ie t2)"
            unfolding m1_def t2 using fresh cur by (rule load_alloc)
          define m2 where "m2 = store m1 (ieptr t2) (RadixElement_node (inewChild t2))"
          define pos2 where "pos2 = pos(inewChild t2 \<mapsto> (d, ikey t2))"
          define t3 where "t3 = t2\<lparr>inewChild := 0, ipc := PLoad\<rparr>"
          have t3: "ipc t3 = PLoad" "ikey t3 = ikey t" "ivalue t3 = ivalue t" "ieptr t3 = ieptr t"
            by (simp_all add: t3_def t2_def t1_def)
          from step_cas2_ok [OF inv1 at2 t2(1) cur1 m2_def pos2_def]
          have st3: "insert_step m1 t2 = Inr (m2, t3)" and inv2: "mem_inv m2 pos2"
            and at3: "thr_at m2 pos2 t3 d" by (simp_all add: t3_def)
          have so3: "slot_ops m1 t2 = 1" using t2(1) by (simp add: slot_ops_def)
          have run3: "insert_run_ops (c + 1) m1 t2 = insert_run_ops (c + 2) m2 t3"
            by (rule ops_step_n [OF _ st3 so3]) (simp_all add: t2(1))
          from step_PLoad [OF inv2 at3 t3(1)] obtain x where
            ldx: "load m2 (ieptr t3) = Inr x"
            and st4: "insert_step m2 t3 = Inr (m2, t3\<lparr>ie := x, ipc := PWhile\<rparr>)"
            and at4: "thr_at m2 pos2 (t3\<lparr>ie := x, ipc := PWhile\<rparr>) d" by blast
          define t4 where "t4 = t3\<lparr>ie := x, ipc := PWhile\<rparr>"
          have t4: "ipc t4 = PWhile" "ikey t4 = ikey t" "ivalue t4 = ivalue t" "ie t4 = x"
            by (simp_all add: t4_def t3)
          have so4: "slot_ops m2 t3 = 1" using t3(1) by (simp add: slot_ops_def)
          have run4: "insert_run_ops (c + 2) m2 t3 = insert_run_ops (c + 3) m2 t4"
            by (rule ops_step_n [OF _ st4 [folded t4_def] so4]) (simp_all add: t3(1))
          have "load m2 (ieptr t2) = Inr (RadixElement_node (inewChild t2))"
            unfolding m2_def using cur1 by (rule load_store_same)
          then have x: "x = RadixElement_node a" using ldx by (simp add: t3_def t2)
          from thr_at_priv [OF inv1 at2 t2(1)] obtain l' leafKey' where
            pv: "getLeaf (ie t2) = Inr l'" "objs m1 l' = Some leafKey'"
             "nodes m1 (inewChild t2)
               = Some ((replicate CHILD_PER_LEVEL RadixElement_default)[chunk (top_nat TYPE('k) - d) leafKey' := ie t2])"
             "pos (inewChild t2) = None" "\<not> bit (inewChild t2) 0" by blast
          have ndx: "isNode (ie t4)" using pv(5) by (simp add: t4 x t2)
          from descend_case [OF inv2 at4 [folded t4_def] t4(1) ndx, of "c + 3"] obtain r where
            r: "insert_run_ops (c + 3) m2 t4 = Some r"
            and post0: "ins_post m2 (ikey t4) (ivalue t4) (Suc d) (c + 3 + 1) r"
            by blast
          have "c + 3 + 1 = c + 4" by simp
          with post0 have post: "ins_post m2 (ikey t) (ivalue t) (Suc d) (c + 4) r"
            by (simp only: t4)
          have g1: "RadixTree_get m1 k' = RadixTree_get m k'" for k'
            using inv inv1 fresh m1_def by (rule get_alloc)
          have g2: "RadixTree_get m2 k' = RadixTree_get m1 k'" for k'
            using inv1 inv2 thr_atD(2) [OF at2] cur1 nd [folded t2(4)] pv(1,2) le pv(3,4,5) m2_def
            by (rule get_publish)
          have "ins_post m (ikey t) (ivalue t) d c r"
            using post le
          proof (rule ins_post_shift [where us = "[a]" and j = 4])
            show "free_nodes m = [a] @ free_nodes m2" using Cons by (simp add: m2_def m1_def)
            show "objs m2 = objs m" by (simp add: m2_def m1_def)
            show "RadixTree_get m2 k' = RadixTree_get m k'" for k' using g1 g2 by simp
            show "RadixTree_get m (ikey t) = Some (Inr 0)" using absent .
          qed simp_all
          then show ?thesis using run1 run2 run3 run4 r by simp
        qed
      qed
    qed
  qed
qed

section \<open>Trees reached by insertions: the invariant holds\<close>

lemma mem_inv_new:
  assumes "heap_ok (os :: uintptr_t \<Rightarrow> 'k::len word option) fs"
  shows "mem_inv (RadixTree_new os fs) (\<lambda>a. None)"
proof (rule mem_invI)
  show "LENGTH('k) \<le> 2 ^ 32" using assms by (simp add: heap_ok_def)
  show "root_ok (RadixTree_new os fs) (\<lambda>a. None) (root (RadixTree_new os fs))"
    by (simp add: root_ok_def RadixTree_new_def)
  show "distinct (free_nodes (RadixTree_new os fs))" using assms by (simp add: heap_ok_def RadixTree_new_def)
  show "nodes (RadixTree_new os fs) a = None \<and> a \<noteq> 0 \<and> \<not> bit a 0"
    if "a \<in> set (free_nodes (RadixTree_new os fs))" for a
    using assms that by (simp add: heap_ok_def RadixTree_new_def)
  show "l \<noteq> 0 \<and> \<not> bit l 0" if "objs (RadixTree_new os fs) l = Some k" for l k
    using assms that unfolding heap_ok_def RadixTree_new_def by simp
  show "length cs = CHILD_PER_LEVEL" if "nodes (RadixTree_new os fs) a = Some cs" for a cs
    using that by (simp add: RadixTree_new_def)
  show "d \<le> top_nat TYPE('k) \<and>
         (\<exists>cs. nodes (RadixTree_new os fs) a = Some cs \<and> (\<forall>i<CHILD_PER_LEVEL. slot_ok (RadixTree_new os fs) (\<lambda>a. None) d kp i (cs ! i)))"
    if "(\<lambda>a. None) a = Some (d, kp)" for a d kp
    using that by simp
qed

lemma insert_seq_ops:
  assumes inv: "mem_inv (m::'k::len tree_mem) pos" and ob: "objs m v = Some k"
  shows "\<exists>r. RadixTree_insert_cost slot_ops m v = Some r \<and> ins_post m k v 0 1 r"
proof -
  define t0 :: "'k ins_thread" where "t0 = \<lparr>ikey = k, ivalue = v, ilevel = TOP_LEVEL TYPE('k), ieptr = Root,
               ie = RadixElement_default, inewChild = 0, ipc = PLoad\<rparr>"
  have b: "insert_begin m v = Inr t0" using ob by (simp add: insert_begin_def t0_def)
  have at0: "thr_at m pos t0 0" using ob by (simp add: thr_at_def t0_def level_at_0)
  have pc0: "ipc t0 = PLoad" by (simp add: t0_def)
  from step_PLoad [OF inv at0 pc0] obtain x where ld: "load m (ieptr t0) = Inr x"
    and st: "insert_step m t0 = Inr (m, t0\<lparr>ie := x, ipc := PWhile\<rparr>)"
    and at1: "thr_at m pos (t0\<lparr>ie := x, ipc := PWhile\<rparr>) 0" by blast
  define t1 where "t1 = t0\<lparr>ie := x, ipc := PWhile\<rparr>"
  have so: "slot_ops m t0 = 1" by (simp add: slot_ops_def pc0)
  have run: "insert_run_ops 0 m t0 = insert_run_ops 1 m t1"
    by (rule ops_step_n [OF _ st [folded t1_def] so]) (simp_all add: pc0)
  have "\<exists>r. insert_run_ops 1 m t1 = Some r \<and> ins_post m (ikey t1) (ivalue t1) 0 1 r"
    using refl inv at1 [folded t1_def]
  proof (rule run_while)
    show "ipc t1 = PWhile" by (simp add: t1_def)
    show "load m (ieptr t1) = Inr (ie t1)" using ld by (simp add: t1_def)
  qed
  then show ?thesis
    using run b by (simp add: RadixTree_insert_cost_def insert_run_ops_def t1_def t0_def)
qed

lemma RadixTree_insert_cost_run:
  "RadixTree_insert_cost cost m v = Some r \<Longrightarrow> RadixTree_insert m v = Some (strip_ops r)"
proof (cases "insert_begin m v")
  case (Inl f)
  assume "RadixTree_insert_cost cost m v = Some r"
  then have "r = Inl f" using Inl by (simp add: RadixTree_insert_cost_def)
  then show ?thesis using Inl by (simp add: RadixTree_insert_def strip_ops_def)
next
  case (Inr t)
  assume "RadixTree_insert_cost cost m v = Some r"
  then have "insert_run_cost cost 0 m t = Some r" using Inr by (simp add: RadixTree_insert_cost_def)
  then have "insert_run m t = Some (strip_ops r)" by (rule cost_run)
  then show ?thesis using Inr by (simp add: RadixTree_insert_def)
qed

lemma strip_ops_Inr: "strip_ops r = Inr (m', b) \<Longrightarrow> \<exists>t' c. r = Inr (m', t', c) \<and> ret_of t' = b"
  by (cases r) (auto simp add: strip_ops_def)

lemma insert_seq:
  assumes inv: "mem_inv (m::'k::len tree_mem) pos" and ob: "objs m v = Some k"
  shows "\<exists>r. RadixTree_insert m v = Some r \<and>
    ((r = Inl BadAlloc \<and> length (free_nodes m) < top_nat TYPE('k) + 1) \<or>
     (\<exists>m' b pos' used. r = Inr (m', b) \<and> mem_inv m' pos' \<and> objs m' = objs m \<and>
        free_nodes m = used @ free_nodes m' \<and> length used \<le> top_nat TYPE('k) + 1 \<and>
        b = (RadixTree_get m k = Some (Inr 0)) \<and> (\<not> b \<longrightarrow> m' = m) \<and>
        (b \<longrightarrow> (\<forall>k'. RadixTree_get m' k' = (if k' = k then Some (Inr v) else RadixTree_get m k')))))"
proof -
  from insert_seq_ops [OF inv ob] obtain r where
    r: "RadixTree_insert_cost slot_ops m v = Some r" and post: "ins_post m k v 0 1 r" by blast
  have run: "RadixTree_insert m v = Some (strip_ops r)" using r by (rule RadixTree_insert_cost_run)
  show ?thesis
  proof (cases "r = Inl BadAlloc")
    case True
    then have "length (free_nodes m) < top_nat TYPE('k) + 1"
      using post unfolding ins_post_def True by simp
    then show ?thesis using run True by (simp add: strip_ops_def)
  next
    case False
    show ?thesis
    proof (rule ins_postE [OF post False])
      fix m' t' c' pos' b used d'
      assume a: "r = Inr (m', t', c')" "ipc t' = PRet b" "mem_inv m' pos'" "objs m' = objs m"
        "free_nodes m = used @ free_nodes m'" "length used \<le> top_nat TYPE('k) + 1 - 0"
        "b = (RadixTree_get m k = Some (Inr 0))"
        and nb: "\<not> b \<Longrightarrow> m' = m"
        and yb: "\<And>k'. b \<Longrightarrow> RadixTree_get m' k' = (if k' = k then Some (Inr v) else RadixTree_get m k')"
      have "strip_ops r = Inr (m', b)" using a(1,2) by (simp add: strip_ops_def ret_of_def)
      then have 1: "RadixTree_insert m v = Some (Inr (m', b))" using run by simp
      have 2: "\<not> b \<longrightarrow> m' = m" using nb by blast
      have 3: "b \<longrightarrow> (\<forall>k'. RadixTree_get m' k' = (if k' = k then Some (Inr v) else RadixTree_get m k'))"
        using yb by blast
      have 4: "length used \<le> top_nat TYPE('k) + 1" using a(6) by simp
      show ?thesis using 1 a(3,4,5) 4 a(7) 2 3 by blast
    qed
  qed
qed

lemma insert_invalid: "objs m v = None \<Longrightarrow> RadixTree_insert m v = Some (Inl InvalidPointer)"
  by (simp add: RadixTree_insert_def insert_begin_def)

lemma insert_Inr_obj: "RadixTree_insert m v = Some (Inr (m', b)) \<Longrightarrow> \<exists>k. objs m v = Some k"
  using insert_invalid [of m v] by (cases "objs m v") auto

lemma reachable_inv: "reachable m \<Longrightarrow> \<exists>pos. mem_inv m pos"
proof (induction rule: reachable.induct)
  case (new os fs)
  then show ?case using mem_inv_new by blast
next
  case (ins m v m' b)
  then obtain pos where inv: "mem_inv m pos" by blast
  from insert_Inr_obj [OF ins(2)] obtain k where ob: "objs m v = Some k" by blast
  from insert_seq [OF inv ob] ins(2) show ?case by auto
qed




lemma insert_all_lemma:
  fixes m :: "'k::len tree_mem"
  shows "mem_inv m pos \<Longrightarrow> set vs \<subseteq> dom (objs m) \<Longrightarrow> distinct (map (objs m) vs)
    \<Longrightarrow> (\<forall>v\<in>set vs. \<forall>k. objs m v = Some k \<longrightarrow> RadixTree_get m k = Some (Inr 0))
    \<Longrightarrow> \<exists>r. insert_all m vs = Some r \<and>
      ((r = Inl BadAlloc \<and> length (free_nodes m) < length vs * (top_nat TYPE('k) + 1)) \<or>
       (\<exists>m' pos'. r = Inr m' \<and> mem_inv m' pos' \<and> objs m' = objs m \<and>
          (\<forall>v\<in>set vs. \<forall>k. objs m v = Some k \<longrightarrow> RadixTree_get m' k = Some (Inr v)) \<and>
          (\<forall>k. (\<forall>v\<in>set vs. objs m v \<noteq> Some k) \<longrightarrow> RadixTree_get m' k = RadixTree_get m k)))"
proof (induction vs arbitrary: m pos)
  case Nil
  then show ?case by auto
next
  case (Cons v vs)
  note inv = Cons.prems(1)
  from Cons.prems(2) obtain k where ob: "objs m v = Some k" by auto
  have absent: "RadixTree_get m k = Some (Inr 0)" using Cons.prems(4) ob by simp
  from insert_seq [OF inv ob] obtain r where r: "RadixTree_insert m v = Some r"
    and alt: "(r = Inl BadAlloc \<and> length (free_nodes m) < top_nat TYPE('k) + 1) \<or>
     (\<exists>m' b pos' used. r = Inr (m', b) \<and> mem_inv m' pos' \<and> objs m' = objs m \<and>
        free_nodes m = used @ free_nodes m' \<and> length used \<le> top_nat TYPE('k) + 1 \<and>
        b = (RadixTree_get m k = Some (Inr 0)) \<and> (\<not> b \<longrightarrow> m' = m) \<and>
        (b \<longrightarrow> (\<forall>k'. RadixTree_get m' k' = (if k' = k then Some (Inr v) else RadixTree_get m k'))))"
    by blast
  show ?case
  proof (cases "r = Inl BadAlloc")
    case True
    then have "length (free_nodes m) < top_nat TYPE('k) + 1" using alt by auto
    then have "length (free_nodes m) < length (v # vs) * (top_nat TYPE('k) + 1)" by simp
    then show ?thesis using r True by simp
  next
    case False
    with alt obtain m1 b pos1 used where r1: "r = Inr (m1, b)" and inv1: "mem_inv m1 pos1"
      and ob1: "objs m1 = objs m" and fr: "free_nodes m = used @ free_nodes m1"
      and us: "length used \<le> top_nat TYPE('k) + 1"
      and b: "b = (RadixTree_get m k = Some (Inr 0))"
      and g1: "b \<longrightarrow> (\<forall>k'. RadixTree_get m1 k' = (if k' = k then Some (Inr v) else RadixTree_get m k'))"
      by blast
    have bt: b using b absent by simp
    then have g: "RadixTree_get m1 k' = (if k' = k then Some (Inr v) else RadixTree_get m k')" for k'
      using g1 by simp
    have notk: "objs m v' \<noteq> Some k" if "v' \<in> set vs" for v'
      using Cons.prems(3) ob that by (auto simp add: image_iff)
    have p2: "set vs \<subseteq> dom (objs m1)" using Cons.prems(2) ob1 by simp
    have p3: "distinct (map (objs m1) vs)" using Cons.prems(3) ob1 by simp
    have p4: "\<forall>v'\<in>set vs. \<forall>k'. objs m1 v' = Some k' \<longrightarrow> RadixTree_get m1 k' = Some (Inr 0)"
      using Cons.prems(4) notk by (auto simp add: ob1 g)
    from Cons.IH [OF inv1 p2 p3 p4] obtain r' where r': "insert_all m1 vs = Some r'"
      and alt': "(r' = Inl BadAlloc \<and> length (free_nodes m1) < length vs * (top_nat TYPE('k) + 1)) \<or>
       (\<exists>m' pos'. r' = Inr m' \<and> mem_inv m' pos' \<and> objs m' = objs m1 \<and>
          (\<forall>v\<in>set vs. \<forall>k. objs m1 v = Some k \<longrightarrow> RadixTree_get m' k = Some (Inr v)) \<and>
          (\<forall>k. (\<forall>v\<in>set vs. objs m1 v \<noteq> Some k) \<longrightarrow> RadixTree_get m' k = RadixTree_get m1 k))"
      by blast
    have run: "insert_all m (v # vs) = Some r'" using r r1 r' by simp
    show ?thesis
    proof (cases "r' = Inl BadAlloc")
      case True
      then have "length (free_nodes m1) < length vs * (top_nat TYPE('k) + 1)" using alt' by auto
      then have "length (free_nodes m) < length (v # vs) * (top_nat TYPE('k) + 1)"
        using fr us by simp
      then show ?thesis using run True by simp
    next
      case False
      with alt' obtain m' pos' where r2: "r' = Inr m'" and inv': "mem_inv m' pos'"
        and ob': "objs m' = objs m1"
        and mem: "\<forall>v\<in>set vs. \<forall>k. objs m1 v = Some k \<longrightarrow> RadixTree_get m' k = Some (Inr v)"
        and non: "\<forall>k. (\<forall>v\<in>set vs. objs m1 v \<noteq> Some k) \<longrightarrow> RadixTree_get m' k = RadixTree_get m1 k"
        by blast
      have "RadixTree_get m' k = Some (Inr v)"
        using non notk g by (simp add: ob1)
      then have 1: "\<forall>v'\<in>set (v # vs). \<forall>k'. objs m v' = Some k' \<longrightarrow> RadixTree_get m' k' = Some (Inr v')"
        using mem ob by (simp add: ob1)
      have 2: "\<forall>k'. (\<forall>v'\<in>set (v # vs). objs m v' \<noteq> Some k') \<longrightarrow> RadixTree_get m' k' = RadixTree_get m k'"
        using non ob g by (simp add: ob1)
      have 3: "objs m' = objs m" using ob' ob1 by simp
      show ?thesis using run r2 inv' 3 1 2 by blast
    qed
  qed
qed

lemma get_new:
  assumes "heap_ok (os :: uintptr_t \<Rightarrow> 'k::len word option) fs"
  shows "RadixTree_get (RadixTree_new os fs) k = Some (Inr 0)"
proof -
  have inv: "mem_inv (RadixTree_new os fs) (\<lambda>a. None)" using assms by (rule mem_inv_new)
  have "path_end (RadixTree_new os fs) k 0 Root RadixElement_default"
    by (simp add: path_end_def load_def RadixTree_new_def)
  from get_at_end [OF inv this] show ?thesis by (simp add: leaf_result_default [OF inv])
qed

lemmas ex_defs = ex_objs_def ex_free_def ex_tree1_def ex_tree2_def ex_thread_def

lemmas eval_defs = insert_begin_def RadixTree_new_def
  insert_step_def load_def store_def compare_exchange_strong_def isNode_def getDiscriminent_def
  DISCRIMINANT_def getLeaf_def isLeaf_def RadixElement_default_def RadixElement_leaf_def
  descend_def getNode_def RadixNode_get_def RadixNode_new_def child_index_def
  RadixElement_node_def TOP_LEVEL_def KEY_BITS_def BITS_def MASK_def CHILD_PER_LEVEL_def Let_def

lemma ex_heap_ok: "heap_ok ex_objs ex_free"
  by (simp add: heap_ok_def ex_objs_def ex_free_def bit_0 split: if_splits)

lemma ex_insert1: "RadixTree_insert (RadixTree_new ex_objs ex_free) 0x100 = Some (Inr (ex_tree1, True))"
  by (simp add: RadixTree_insert_def insert_run.simps eval_defs ex_defs)


lemma child_index_less: "child_index level key = Inr j \<Longrightarrow> j < CHILD_PER_LEVEL"
  by (auto simp add: child_index_def Let_def MASK_eq CHILD_PER_LEVEL_def chunk_unat split: if_splits)




section \<open>The claims on calls that run alone\<close>

text \<open>
  Claim C1. A thread of \<^verbatim>\<open>insert\<close> stands at a node, in the loop of line 104 or at the
  label \<^verbatim>\<open>Node\<close>, with \<^verbatim>\<open>level = L\<close>. The descent indexes the slot \<open>p\<close> of that node at
  level \<open>L\<close> and decrements \<^verbatim>\<open>level\<close> to \<open>L - 1\<close>. When \<open>p\<close> holds a leaf, a non-null
  pointer, whose key differs from the key inserted, the thread goes on as follows. The test
  of line 111 falls through. \<^verbatim>\<open>MakeUnique\<close> takes a fresh address \<open>a\<close> and builds there the
  node for level \<open>L - 1\<close>: it has \<open>CHILD_PER_LEVEL\<close> slots, holds the leaf at the index \<open>j\<close> of
  the leaf's key for level \<open>L - 1\<close> and the empty element in every other slot. The
  compare-and-swap of line 132 then works on the same slot \<open>p\<close>, in whatever memory \<open>m2\<close> the
  other threads have left: when \<open>p\<close> still holds the leaf it stores the reference to the new
  node there; otherwise it stores nothing, and the only change of the memory is that the
  node at \<open>a\<close> is deleted and its address handed back.
\<close>

theorem insert_split_leaf:
  fixes m m2 :: "'k::len tree_mem" and t :: "'k ins_thread"
  assumes pc: "ipc t = PWhile \<or> ipc t = PNode"
    and nd: "isNode (ie t)"
    and idx: "RadixNode_get (ie t) (ilevel t) (ikey t) = Inr p"
    and ld: "load m p = Inr x"
    and lf: "getLeaf x = Inr l" and l0: "l \<noteq> 0"
    and ob: "objs m l = Some leafKey" and ne: "leafKey \<noteq> ikey t"
    and fr: "free_nodes m = a # rest"
    and ci: "child_index (ilevel t - 1) leafKey = Inr j"
    and cur: "load m2 p = Inr cur"
  shows "(let t1 = t\<lparr>ieptr := p, ilevel := ilevel t - 1, ie := x, ipc := PWhile\<rparr>;
              t2 = t1\<lparr>ipc := PLeaf\<rparr>;
              n = (replicate CHILD_PER_LEVEL RadixElement_default)[j := x];
              m3 = m\<lparr>nodes := (nodes m)(a \<mapsto> n), free_nodes := rest\<rparr>;
              t3 = t2\<lparr>inewChild := a, ipc := PCas\<rparr>
          in insert_step m t = Inr (m, t1)
           \<and> insert_step m t1 = Inr (m, t2)
           \<and> RadixNode_new (ilevel t - 1) leafKey x = Inr n
           \<and> j < CHILD_PER_LEVEL \<and> length n = CHILD_PER_LEVEL \<and> n ! j = x
           \<and> (\<forall>i<CHILD_PER_LEVEL. i \<noteq> j \<longrightarrow> n ! i = RadixElement_default)
           \<and> insert_step m t2 = Inr (m3, t3)
           \<and> insert_step m2 t3 =
               (if cur = x
                then Inr (store m2 p (RadixElement_node a), t3\<lparr>inewChild := 0, ipc := PLoad\<rparr>)
                else Inr (m2\<lparr>nodes := (nodes m2)(a := None), free_nodes := a # free_nodes m2\<rparr>,
                          t3\<lparr>ie := cur, inewChild := 0, ipc := PLoad\<rparr>)))"
proof -
  have s1: "insert_step m t = Inr (m, t\<lparr>ieptr := p, ilevel := ilevel t - 1, ie := x, ipc := PWhile\<rparr>)"
    using pc nd idx ld by (auto simp add: insert_step_def descend_def getNode_def)
  have nx: "\<not> isNode x" using lf by (simp add: getLeaf_def isLeaf_def isNode_def split: if_splits)
  have s2: "insert_step m (t\<lparr>ieptr := p, ilevel := ilevel t - 1, ie := x, ipc := PWhile\<rparr>)
      = Inr (m, t\<lparr>ieptr := p, ilevel := ilevel t - 1, ie := x, ipc := PLeaf\<rparr>)"
    using nx lf l0 by (simp add: insert_step_def)
  have jl: "j < CHILD_PER_LEVEL" using ci by (rule child_index_less)
  have nw: "RadixNode_new (ilevel t - 1) leafKey x
      = Inr ((replicate CHILD_PER_LEVEL RadixElement_default)[j := x])"
    using ci by (simp add: RadixNode_new_def)
  have s3: "insert_step m (t\<lparr>ieptr := p, ilevel := ilevel t - 1, ie := x, ipc := PLeaf\<rparr>)
      = Inr (m\<lparr>nodes := (nodes m)(a \<mapsto> (replicate CHILD_PER_LEVEL RadixElement_default)[j := x]),
               free_nodes := rest\<rparr>,
             t\<lparr>ieptr := p, ilevel := ilevel t - 1, ie := x, inewChild := a, ipc := PCas\<rparr>)"
    using lf ob ne [symmetric] fr nw by (simp add: insert_step_def)
  have s4: "insert_step m2 (t\<lparr>ieptr := p, ilevel := ilevel t - 1, ie := x, inewChild := a, ipc := PCas\<rparr>) =
      (if cur = x
       then Inr (store m2 p (RadixElement_node a),
                 t\<lparr>ieptr := p, ilevel := ilevel t - 1, ie := x, inewChild := 0, ipc := PLoad\<rparr>)
       else Inr (m2\<lparr>nodes := (nodes m2)(a := None), free_nodes := a # free_nodes m2\<rparr>,
                 t\<lparr>ieptr := p, ilevel := ilevel t - 1, ie := cur, inewChild := 0, ipc := PLoad\<rparr>))"
    using cur by (simp add: insert_step_def compare_exchange_strong_def)
  show ?thesis
    unfolding Let_def using s1 s2 s3 s4 nw jl by simp
qed

theorem insert_split_leaf_witness:
  "isNode (ie ex_thread)
   \<and> RadixNode_get (ie ex_thread) (ilevel ex_thread) (ikey ex_thread) = Inr (Child 0x1000 1)
   \<and> load ex_tree2 (Child 0x1000 1) = Inr 0x101
   \<and> getLeaf 0x101 = Inr 0x100 \<and> objs ex_tree2 0x100 = Some 0x12
   \<and> child_index (ilevel ex_thread - 1) (0x12 :: 8 word) = Inr 2
   \<and> insert_step ex_tree2 ex_thread
       = Inr (ex_tree2, ex_thread\<lparr>ieptr := Child 0x1000 1, ilevel := 0, ie := 0x101\<rparr>)
   \<and> insert_step ex_tree2 (ex_thread\<lparr>ieptr := Child 0x1000 1, ilevel := 0, ie := 0x101, ipc := PLeaf\<rparr>)
       = Inr (ex_tree2\<lparr>nodes := (nodes ex_tree2)(0x2000 \<mapsto> (replicate 16 1)[2 := 0x101]),
                       free_nodes := [0x3000, 0x4000]\<rparr>,
              ex_thread\<lparr>ieptr := Child 0x1000 1, ilevel := 0, ie := 0x101, inewChild := 0x2000, ipc := PCas\<rparr>)
   \<and> insert_step (ex_tree2\<lparr>root := 0x101\<rparr>)
         (ex_thread\<lparr>ieptr := Child 0x1000 1, ilevel := 0, ie := 0x101, inewChild := 0x2000, ipc := PCas\<rparr>)
       = Inr (store (ex_tree2\<lparr>root := 0x101\<rparr>) (Child 0x1000 1) (RadixElement_node 0x2000),
              ex_thread\<lparr>ieptr := Child 0x1000 1, ilevel := 0, ie := 0x101, inewChild := 0, ipc := PLoad\<rparr>)"
proof -
  have 1: "ipc ex_thread = PWhile \<or> ipc ex_thread = PNode" by (simp add: ex_defs)
  have 2: "isNode (ie ex_thread)" by (simp add: ex_defs eval_defs)
  have 3: "RadixNode_get (ie ex_thread) (ilevel ex_thread) (ikey ex_thread) = Inr (Child 0x1000 1)"
    by (simp add: ex_defs eval_defs)
  have 4: "load ex_tree2 (Child 0x1000 1) = Inr 0x101" by (simp add: ex_defs eval_defs)
  have 5: "getLeaf (0x101 :: uintptr_t) = Inr 0x100" by (simp add: eval_defs)
  have 6: "(0x100 :: uintptr_t) \<noteq> 0" by simp
  have 7: "objs ex_tree2 0x100 = Some 0x12" by (simp add: ex_defs)
  have 8: "(0x12 :: 8 word) \<noteq> ikey ex_thread" by (simp add: ex_defs)
  have 9: "free_nodes ex_tree2 = 0x2000 # [0x3000, 0x4000]" by (simp add: ex_defs)
  have 10: "child_index (ilevel ex_thread - 1) (0x12 :: 8 word) = Inr 2" by (simp add: ex_defs eval_defs)
  have 11: "load (ex_tree2\<lparr>root := 0x101\<rparr>) (Child 0x1000 1) = Inr 0x101" by (simp add: ex_defs eval_defs)
  show ?thesis
    using insert_split_leaf [OF 1 2 3 4 5 6 7 8 9 10 11] 2 3 4 5 7 10
    by (simp add: Let_def CHILD_PER_LEVEL_def RadixElement_default_def DISCRIMINANT_def ex_thread_def)
qed

text \<open>
  Claim C2. Let \<open>vs\<close> list, in any order, values with pairwise distinct ids. Inserting them one
  after the other into the empty tree ends, and unless the allocator runs out of nodes (which
  it cannot when it holds \<open>(KEY_BITS - 1) div BITS + 1\<close> nodes for each value), the resulting
  tree is such that \<^verbatim>\<open>get\<close> returns each value of \<open>vs\<close> for its id and \<^verbatim>\<open>nullptr\<close> for every
  key that is the id of no value of \<open>vs\<close>. With \<open>vs = []\<close> this is the empty tree, where \<^verbatim>\<open>get\<close>
  returns \<^verbatim>\<open>nullptr\<close> for every key.
\<close>

theorem insert_all_roundtrip:
  fixes os :: "uintptr_t \<Rightarrow> 'k::len word option"
  assumes "heap_ok os fs" and "set vs \<subseteq> dom os" and "distinct (map os vs)"
  shows "\<exists>r. insert_all (RadixTree_new os fs) vs = Some r \<and>
      ((r = Inl BadAlloc \<and> length fs < length vs * ((KEY_BITS TYPE('k) - 1) div BITS + 1)) \<or>
       (\<exists>m'. r = Inr m' \<and>
          (\<forall>v\<in>set vs. \<forall>k. os v = Some k \<longrightarrow> RadixTree_get m' k = Some (Inr v)) \<and>
          (\<forall>k. (\<forall>v\<in>set vs. os v \<noteq> Some k) \<longrightarrow> RadixTree_get m' k = Some (Inr 0))))"
proof -
  let ?m = "RadixTree_new os fs"
  have inv: "mem_inv ?m (\<lambda>a. None)" using assms(1) by (rule mem_inv_new)
  have o: "objs ?m = os" and f: "free_nodes ?m = fs" by (simp_all add: RadixTree_new_def)
  have g: "RadixTree_get ?m k = Some (Inr 0)" for k using assms(1) by (rule get_new)
  have "\<exists>r. insert_all ?m vs = Some r \<and>
      ((r = Inl BadAlloc \<and> length (free_nodes ?m) < length vs * (top_nat TYPE('k) + 1)) \<or>
       (\<exists>m' pos'. r = Inr m' \<and> mem_inv m' pos' \<and> objs m' = objs ?m \<and>
          (\<forall>v\<in>set vs. \<forall>k. objs ?m v = Some k \<longrightarrow> RadixTree_get m' k = Some (Inr v)) \<and>
          (\<forall>k. (\<forall>v\<in>set vs. objs ?m v \<noteq> Some k) \<longrightarrow> RadixTree_get m' k = RadixTree_get ?m k)))"
    using inv by (rule insert_all_lemma) (use assms g in \<open>simp_all add: o\<close>)
  then show ?thesis unfolding o f g top_nat_def by blast
qed

theorem insert_all_roundtrip_witness:
  "heap_ok ex_objs ex_free \<and> set [0x200, 0x100] \<subseteq> dom ex_objs \<and> distinct (map ex_objs [0x200, 0x100])
   \<and> (\<exists>m'. insert_all (RadixTree_new ex_objs ex_free) [0x200, 0x100] = Some (Inr m')
         \<and> RadixTree_get m' 0x12 = Some (Inr 0x100)
         \<and> RadixTree_get m' 0x13 = Some (Inr 0x200)
         \<and> RadixTree_get m' 0x14 = Some (Inr 0))"
proof -
  have 2: "set [0x200, 0x100] \<subseteq> dom ex_objs" by (simp add: ex_objs_def dom_def)
  have 3: "distinct (map ex_objs [0x200, 0x100])" by (simp add: ex_objs_def)
  from insert_all_roundtrip [OF ex_heap_ok 2 3] obtain r where
    r: "insert_all (RadixTree_new ex_objs ex_free) [0x200, 0x100] = Some r"
    and alt: "(r = Inl BadAlloc \<and> length ex_free < length [0x200 :: uintptr_t, 0x100] * ((KEY_BITS TYPE(8) - 1) div BITS + 1)) \<or>
       (\<exists>m'. r = Inr m' \<and>
          (\<forall>v\<in>set [0x200, 0x100]. \<forall>k. ex_objs v = Some k \<longrightarrow> RadixTree_get m' k = Some (Inr v)) \<and>
          (\<forall>k. (\<forall>v\<in>set [0x200, 0x100]. ex_objs v \<noteq> Some k) \<longrightarrow> RadixTree_get m' k = Some (Inr 0)))"
    by blast
  have "\<not> length ex_free < length [0x200 :: uintptr_t, 0x100] * ((KEY_BITS TYPE(8) - 1) div BITS + 1)"
    by (simp add: ex_free_def KEY_BITS_def BITS_def)
  with alt obtain m' where m': "r = Inr m'"
    and a: "\<forall>v\<in>set [0x200, 0x100]. \<forall>k. ex_objs v = Some k \<longrightarrow> RadixTree_get m' k = Some (Inr v)"
    and b: "\<forall>k. (\<forall>v\<in>set [0x200, 0x100]. ex_objs v \<noteq> Some k) \<longrightarrow> RadixTree_get m' k = Some (Inr 0)"
    by blast
  have g1: "RadixTree_get m' 0x12 = Some (Inr 0x100)" using a by (simp add: ex_objs_def)
  have g2: "RadixTree_get m' 0x13 = Some (Inr 0x200)" using a by (simp add: ex_objs_def)
  have g3: "RadixTree_get m' 0x14 = Some (Inr 0)" using b by (simp add: ex_objs_def)
  show ?thesis using ex_heap_ok 2 3 r m' g1 g2 g3 by blast
qed



text \<open>
  Claim C4. In every tree reached by insertions from the empty tree, when \<^verbatim>\<open>insert(v)\<close>
  returns true, \<^verbatim>\<open>get(v->getId())\<close> on the resulting tree returns the pointer \<open>v\<close> itself.
\<close>

theorem insert_true_then_get:
  fixes m :: "'a::len tree_mem"
  assumes "reachable m" and "RadixTree_insert m v = Some (Inr (m', True))"
  shows "\<exists>k. objs m v = Some k \<and> RadixTree_get m' k = Some (Inr v)"
proof -
  from reachable_inv [OF assms(1)] obtain pos where inv: "mem_inv m pos" by blast
  from insert_Inr_obj [OF assms(2)] obtain k where ob: "objs m v = Some k" by blast
  from insert_seq [OF inv ob] obtain r where r: "RadixTree_insert m v = Some r"
    and alt: "(r = Inl BadAlloc \<and> length (free_nodes m) < top_nat TYPE('a) + 1) \<or>
     (\<exists>m1 b pos' used. r = Inr (m1, b) \<and> mem_inv m1 pos' \<and> objs m1 = objs m \<and>
        free_nodes m = used @ free_nodes m1 \<and> length used \<le> top_nat TYPE('a) + 1 \<and>
        b = (RadixTree_get m k = Some (Inr 0)) \<and> (\<not> b \<longrightarrow> m1 = m) \<and>
        (b \<longrightarrow> (\<forall>k'. RadixTree_get m1 k' = (if k' = k then Some (Inr v) else RadixTree_get m k'))))"
    by blast
  have req: "r = Inr (m', True)" using r assms(2) by simp
  from alt have "True \<longrightarrow> (\<forall>k'. RadixTree_get m' k' = (if k' = k then Some (Inr v) else RadixTree_get m k'))"
    unfolding req by blast
  then have "RadixTree_get m' k = Some (Inr v)" by simp
  with ob show ?thesis by blast
qed

theorem insert_true_then_get_witness:
  "reachable (RadixTree_new ex_objs ex_free)
   \<and> RadixTree_insert (RadixTree_new ex_objs ex_free) 0x100 = Some (Inr (ex_tree1, True))
   \<and> objs (RadixTree_new ex_objs ex_free) 0x100 = Some 0x12
   \<and> RadixTree_get ex_tree1 0x12 = Some (Inr 0x100)"
proof -
  have r: "reachable (RadixTree_new ex_objs ex_free)" using ex_heap_ok by (rule reachable.new)
  have o: "objs (RadixTree_new ex_objs ex_free) 0x100 = Some 0x12"
    by (simp add: RadixTree_new_def ex_objs_def)
  from insert_true_then_get [OF r ex_insert1] o
  have "RadixTree_get ex_tree1 0x12 = Some (Inr 0x100)" by simp
  with r ex_insert1 o show ?thesis by simp
qed




text \<open>
  Claim C10. The thread has seen its slot empty (line 111) and the compare-and-swap of line
  112 fails: the slot holds \<open>cur\<close>, which is not what the thread expected. When \<open>cur\<close> is not a
  node, the thread goes to line 123 with \<open>e = cur\<close>, nothing written, and there
  \<^verbatim>\<open>e.getLeaf()\<close> passes its assertion and returns a pointer that is not null.
\<close>

theorem failed_cas_leaf_not_null:
  assumes "ipc t = PWhile" and "\<not> isNode (ie t)" and "getLeaf (ie t) = Inr 0"
    and "load m (ieptr t) = Inr cur" and "cur \<noteq> ie t" and "\<not> isNode cur"
  shows "compare_exchange_strong m (ieptr t) (ie t) (RadixElement_leaf (ivalue t)) = Inr (m, False, cur)
     \<and> insert_step m t = Inr (m, t\<lparr>ie := cur, ipc := PLeaf\<rparr>)
     \<and> (\<exists>l. getLeaf cur = Inr l \<and> l \<noteq> 0)"
proof -
  have e: "ie t = RadixElement_default" using assms(2,3) by (simp add: getLeaf_zero_iff)
  have "getLeaf cur \<noteq> Inr 0" using assms(5,6) e by (simp add: getLeaf_zero_iff)
  then have "\<exists>l. getLeaf cur = Inr l \<and> l \<noteq> 0" using assms(6) by (simp add: getLeaf_not_node)
  then show ?thesis using assms by (simp add: insert_step_def compare_exchange_strong_def)
qed

theorem failed_cas_leaf_not_null_witness:
  "\<not> isNode RadixElement_default \<and> getLeaf RadixElement_default = Inr 0
   \<and> load ex_tree1 Root = Inr 0x101 \<and> \<not> isNode 0x101
   \<and> insert_step ex_tree1 (ex_thread\<lparr>ie := RadixElement_default\<rparr>)
        = Inr (ex_tree1, ex_thread\<lparr>ie := 0x101, ipc := PLeaf\<rparr>)
   \<and> getLeaf 0x101 = Inr 0x100"
proof -
  let ?t = "ex_thread\<lparr>ie := RadixElement_default\<rparr>"
  have 1: "ipc ?t = PWhile" by (simp add: ex_defs)
  have 2: "\<not> isNode (ie ?t)" by (simp add: eval_defs)
  have 3: "getLeaf (ie ?t) = Inr 0" by (simp add: eval_defs)
  have 4: "load ex_tree1 (ieptr ?t) = Inr 0x101" by (simp add: ex_defs eval_defs)
  have 5: "(0x101 :: uintptr_t) \<noteq> ie ?t" by (simp add: eval_defs)
  have 6: "\<not> isNode (0x101 :: uintptr_t)" by (simp add: eval_defs)
  have 7: "getLeaf (0x101 :: uintptr_t) = Inr 0x100" by (simp add: eval_defs)
  show ?thesis
    using failed_cas_leaf_not_null [OF 1 2 3 4 5 6] 2 3 4 6 7 by (simp add: ex_thread_def)
qed

end
